theory Spec2Isabelle
  imports Complex_Main "HOL-Library.Word" "HOL-Library.Monad_Syntax"
begin

section \<open>The navigation function planner of navfn.cpp\<close>

text \<open>
  A shallow embedding of \<^verbatim>\<open>src/navfn/src/navfn.cpp\<close>. The class \<^verbatim>\<open>NavFn\<close> is a record;
  every member function takes the record and returns the updated one.

  \<^item> A C++ \<^verbatim>\<open>int\<close> is an unbounded \<open>int\<close>: the grids of interest are far below
    \<open>2^31\<close> cells and no function below relies on wrap-around.
  \<^item> A \<^verbatim>\<open>COSTTYPE\<close> (\<^verbatim>\<open>unsigned char\<close>) is an \<open>8 word\<close>.
  \<^item> A \<^verbatim>\<open>float\<close> or \<^verbatim>\<open>double\<close> is a \<open>real\<close>: arithmetic is exact, rounding is
    not part of the model.
  \<^item> The conversion of a \<^verbatim>\<open>float\<close> to \<^verbatim>\<open>int\<close> in \<^verbatim>\<open>calcPath\<close> is defined for values whose
    integer part is a 32-bit \<^verbatim>\<open>int\<close>; for other values, such as \<^verbatim>\<open>POT_HIGH\<close>, it has
    undefined behaviour in C++ and returns \<open>None\<close> here.
  \<^item> A heap array is a function from the index (an \<open>int\<close>) to the element. The array
    has the length the code allocates for it; a function that reads or writes
    outside of it has undefined behaviour in C++ and returns \<open>None\<close> here.
  \<^item> The three priority buffers \<^verbatim>\<open>pb1\<close>, \<^verbatim>\<open>pb2\<close>, \<^verbatim>\<open>pb3\<close> are a store indexed by a
    handle; the pointers \<^verbatim>\<open>curP\<close>, \<^verbatim>\<open>nextP\<close> and \<^verbatim>\<open>overP\<close> are handles, exchanged as
    the code exchanges the pointers.
  \<^item> Logging (\<^verbatim>\<open>ROS_DEBUG\<close>), the display callback (off by default) and the
    counters that only feed a log line are left out.
\<close>

subsection \<open>Constants of navfn.h\<close>

text \<open>
  The header \<^verbatim>\<open>navfn/navfn.h\<close> that defines the macros below is not among the source
  files; their values are the ones the specification lists in its data model.
\<close>

definition COST_NEUTRAL :: int where
  \<comment> \<open>Modelled from the spec: macro of navfn.h, "COST_NEUTRAL = 50".\<close>
  "COST_NEUTRAL = 50"

definition COST_OBS :: int where
  \<comment> \<open>Modelled from the spec: macro of navfn.h, "COST_OBS = 254".\<close>
  "COST_OBS = 254"

definition COST_OBS_ROS :: int where
  \<comment> \<open>Modelled from the spec: macro of navfn.h, "COST_OBS_ROS = 253".\<close>
  "COST_OBS_ROS = 253"

definition COST_UNKNOWN_ROS :: int where
  \<comment> \<open>Modelled from the spec: macro of navfn.h, there called COST_UNKNOWN_EXT = 255.\<close>
  "COST_UNKNOWN_ROS = 255"

definition COST_FACTOR :: real where
  \<comment> \<open>Modelled from the spec: macro of navfn.h, "typical value around 0.8".\<close>
  "COST_FACTOR = 8 / 10"

definition POT_HIGH :: real where
  \<comment> \<open>Modelled from the spec: macro of navfn.h, "POT_HIGH = 1.0e10".\<close>
  "POT_HIGH = 10000000000"

definition PRIORITYBUFSIZE :: int where
  \<comment> \<open>Modelled from the spec: macro of navfn.h, "PRIORITYBUFSIZE (typical 10,000)".\<close>
  "PRIORITYBUFSIZE = 10000"

definition INVSQRT2 :: real where
  "INVSQRT2 = 707106781 / 1000000000"

subsection \<open>The planner's state\<close>

type_synonym costtype = "8 word"

datatype pbuf = PB1 | PB2 | PB3

record navfn =
  nx :: int
  ny :: int
  ns :: int
  costarr :: "int \<Rightarrow> costtype"
  potarr :: "int \<Rightarrow> real"
  pending :: "int \<Rightarrow> bool"
  nobs :: int
  pb :: "pbuf \<Rightarrow> int \<Rightarrow> int"
  curP :: pbuf
  nextP :: pbuf
  overP :: pbuf
  curPe :: int
  nextPe :: int
  overPe :: int
  curT :: real
  priInc :: real
  goal :: "int \<times> int"
  start :: "int \<times> int"
  gradx :: "int \<Rightarrow> real"
  grady :: "int \<Rightarrow> real"
  pathx :: "int \<Rightarrow> real"
  pathy :: "int \<Rightarrow> real"
  npath :: int
  npathbuf :: int
  pathStep :: real
  last_path_cost :: real

text \<open>An index of one of the grid arrays, which all have \<open>ns\<close> elements.\<close>

definition inb :: "navfn \<Rightarrow> int \<Rightarrow> bool" where
  "inb s i = (0 \<le> i \<and> i < ns s)"

text \<open>Reading \<^verbatim>\<open>potarr[k]\<close>, \<^verbatim>\<open>gradx[k]\<close>, \<^verbatim>\<open>grady[k]\<close>.\<close>

definition pot_at :: "navfn \<Rightarrow> int \<Rightarrow> real option" where
  "pot_at s k = (if inb s k then Some (potarr s k) else None)"

definition gradx_at :: "navfn \<Rightarrow> int \<Rightarrow> real option" where
  "gradx_at s k = (if inb s k then Some (gradx s k) else None)"

definition grady_at :: "navfn \<Rightarrow> int \<Rightarrow> real option" where
  "grady_at s k = (if inb s k then Some (grady s k) else None)"

text \<open>The value of a cost cell, as the \<^verbatim>\<open>int\<close> or \<^verbatim>\<open>float\<close> the code promotes it to.\<close>

definition cost :: "navfn \<Rightarrow> int \<Rightarrow> int" where
  "cost s n = uint (costarr s n)"

definition cost_at :: "navfn \<Rightarrow> int \<Rightarrow> int option" where
  "cost_at s k = (if inb s k then Some (cost s k) else None)"

subsection \<open>Conversions and library functions of C\<close>

text \<open>The conversion of a floating-point value to \<^verbatim>\<open>int\<close> drops the fraction.\<close>

definition trunc :: "real \<Rightarrow> int" where
  "trunc x = (if 0 \<le> x then \<lfloor>x\<rfloor> else \<lceil>x\<rceil>)"

text \<open>
  The conversion to the 32-bit \<^verbatim>\<open>int\<close> of the platforms ROS runs on. C++ defines it only
  when the integer part fits (ISO C++, conv.fpint); beyond the range of \<^verbatim>\<open>int\<close> the
  behaviour is undefined, which is \<open>None\<close> here.
\<close>

definition float_to_int :: "real \<Rightarrow> int option" where
  "float_to_int x =
     (if - 2147483648 \<le> trunc x \<and> trunc x \<le> 2147483647 then Some (trunc x) else None)"

text \<open>\<^verbatim>\<open>round\<close> rounds halfway cases away from zero.\<close>

definition c_round :: "real \<Rightarrow> int" where
  "c_round x = (if 0 \<le> x then \<lfloor>x + 1 / 2\<rfloor> else \<lceil>x - 1 / 2\<rceil>)"

definition hypot :: "real \<Rightarrow> real \<Rightarrow> real" where
  "hypot x y = sqrt (x\<^sup>2 + y\<^sup>2)"

text \<open>Integer division and remainder truncate towards zero; the divisor is not 0.\<close>

definition c_div :: "int \<Rightarrow> int \<Rightarrow> int" where
  "c_div a b = sgn a * sgn b * (\<bar>a\<bar> div \<bar>b\<bar>)"

definition c_mod :: "int \<Rightarrow> int \<Rightarrow> int" where
  "c_mod a b = a - c_div a b * b"

text \<open>Running a loop body over the values of the loop variable, stopping at \<open>None\<close>.\<close>

fun foldM :: "('a \<Rightarrow> 's \<Rightarrow> 's option) \<Rightarrow> 'a list \<Rightarrow> 's \<Rightarrow> 's option" where
  "foldM f [] s = Some s"
| "foldM f (x # xs) s = (case f x s of None \<Rightarrow> None | Some s' \<Rightarrow> foldM f xs s')"

subsection \<open>Construction\<close>

text \<open>
  \<^verbatim>\<open>setNavArr\<close> allocates the grids: \<^verbatim>\<open>costarr\<close> and \<^verbatim>\<open>pending\<close> are cleared, the other
  arrays keep whatever the memory holds. The constructor \<^verbatim>\<open>NavFn(xs, ys)\<close> runs on a
  record \<open>mem\<close> that stands for that memory.
\<close>

definition setNavArr :: "navfn \<Rightarrow> int \<Rightarrow> int \<Rightarrow> navfn" where
  "setNavArr s xs ys =
     s\<lparr>nx := xs, ny := ys, ns := xs * ys, costarr := (\<lambda>_. 0), pending := (\<lambda>_. False)\<rparr>"

definition NavFn :: "navfn \<Rightarrow> int \<Rightarrow> int \<Rightarrow> navfn" where
  "NavFn mem xs ys =
     (setNavArr mem xs ys)
       \<lparr>priInc := real_of_int (2 * COST_NEUTRAL), goal := (0, 0), start := (0, 0),
        npath := 0, npathbuf := 0, pathStep := 1 / 2\<rparr>"

definition setGoal :: "navfn \<Rightarrow> int \<times> int \<Rightarrow> navfn" where
  "setGoal s g = s\<lparr>goal := g\<rparr>"

definition setStart :: "navfn \<Rightarrow> int \<times> int \<Rightarrow> navfn" where
  "setStart s g = s\<lparr>start := g\<rparr>"

subsection \<open>The cost translator\<close>

text \<open>
  The body of the inner loop of \<^verbatim>\<open>setCostmap\<close>, as the value it leaves in \<^verbatim>\<open>*cm\<close> for
  the incoming value \<^verbatim>\<open>*cmap\<close>: first the ROS branch, then the PGM branch at row \<open>i\<close>
  and column \<open>j\<close>.
\<close>

definition ros_cell :: "bool \<Rightarrow> costtype \<Rightarrow> costtype" where
  "ros_cell allow_unknown c =
     (let v = uint c in
      if v < COST_OBS_ROS then
        (let v1 = trunc (real_of_int COST_NEUTRAL + COST_FACTOR * real_of_int v);
             v2 = (if v1 \<ge> COST_OBS then COST_OBS - 1 else v1)
         in word_of_int v2)
      else if v = COST_UNKNOWN_ROS \<and> allow_unknown then word_of_int (COST_OBS - 1)
      else word_of_int COST_OBS)"

definition pgm_cell :: "int \<Rightarrow> int \<Rightarrow> int \<Rightarrow> int \<Rightarrow> costtype \<Rightarrow> costtype" where
  "pgm_cell w h i j c =
     (if i < 7 \<or> i > h - 8 \<or> j < 7 \<or> j > w - 8 then word_of_int COST_OBS
      else
        (let v = uint c in
         if v < COST_OBS_ROS then
           (let v1 = trunc (real_of_int COST_NEUTRAL + COST_FACTOR * real_of_int v);
                v2 = (if v1 \<ge> COST_OBS then COST_OBS - 1 else v1)
            in word_of_int v2)
         else if v = COST_UNKNOWN_ROS then word_of_int (COST_OBS - 1)
         else word_of_int COST_OBS))"

text \<open>
  The two loops advance \<^verbatim>\<open>cmap\<close> and \<^verbatim>\<open>cm\<close> by one cell per inner step, so at row \<open>i\<close>
  and column \<open>j\<close> both point at cell \<open>i * nx + j\<close>. The incoming map \<open>cmap\<close> has
  \<open>nx * ny\<close> cells, as \<^verbatim>\<open>costarr\<close> has.
\<close>

definition setCostmap :: "navfn \<Rightarrow> (int \<Rightarrow> costtype) \<Rightarrow> bool \<Rightarrow> bool \<Rightarrow> navfn" where
  "setCostmap s cmap isROS allow_unknown =
     s\<lparr>costarr :=
          fold (\<lambda>i cm.
                  fold (\<lambda>j cm.
                          cm(i * nx s + j :=
                               (if isROS then ros_cell allow_unknown (cmap (i * nx s + j))
                                else pgm_cell (nx s) (ny s) i j (cmap (i * nx s + j)))))
                    [0 .. nx s - 1] cm)
            [0 .. ny s - 1] (costarr s)\<rparr>"

subsection \<open>The priority buffers\<close>

text \<open>
  The macros \<^verbatim>\<open>push_cur\<close>, \<^verbatim>\<open>push_next\<close> and \<^verbatim>\<open>push_over\<close>. The condition is evaluated
  left to right and stops at the first conjunct that fails, so \<^verbatim>\<open>pending[n]\<close> and
  \<^verbatim>\<open>costarr[n]\<close> are read for an index of the grid only.
\<close>

definition push_cur :: "navfn \<Rightarrow> int \<Rightarrow> navfn" where
  "push_cur s n =
     (if n \<ge> 0 \<and> n < ns s \<and> \<not> pending s n \<and> cost s n < COST_OBS \<and> curPe s < PRIORITYBUFSIZE
      then s\<lparr>pb := (pb s)(curP s := (pb s (curP s))(curPe s := n)), curPe := curPe s + 1,
              pending := (pending s)(n := True)\<rparr>
      else s)"

definition push_next :: "navfn \<Rightarrow> int \<Rightarrow> navfn" where
  "push_next s n =
     (if n \<ge> 0 \<and> n < ns s \<and> \<not> pending s n \<and> cost s n < COST_OBS \<and> nextPe s < PRIORITYBUFSIZE
      then s\<lparr>pb := (pb s)(nextP s := (pb s (nextP s))(nextPe s := n)), nextPe := nextPe s + 1,
              pending := (pending s)(n := True)\<rparr>
      else s)"

definition push_over :: "navfn \<Rightarrow> int \<Rightarrow> navfn" where
  "push_over s n =
     (if n \<ge> 0 \<and> n < ns s \<and> \<not> pending s n \<and> cost s n < COST_OBS \<and> overPe s < PRIORITYBUFSIZE
      then s\<lparr>pb := (pb s)(overP s := (pb s (overP s))(overPe s := n)), overPe := overPe s + 1,
              pending := (pending s)(n := True)\<rparr>
      else s)"

subsection \<open>Setting up a propagation\<close>

text \<open>\<^verbatim>\<open>initCost(k, v)\<close> writes \<^verbatim>\<open>potarr[k]\<close> without a test of \<open>k\<close> or of the cell's cost.\<close>

definition initCost :: "navfn \<Rightarrow> int \<Rightarrow> real \<Rightarrow> navfn option" where
  "initCost s k v =
     (if \<not> inb s k then None
      else
        (let s1 = s\<lparr>potarr := (potarr s)(k := v)\<rparr>;
             s2 = push_cur s1 (k + 1);
             s3 = push_cur s2 (k - 1);
             s4 = push_cur s3 (k - nx s)
         in Some (push_cur s4 (k + nx s))))"

text \<open>Writing \<^verbatim>\<open>COST_OBS\<close> through the pointer \<^verbatim>\<open>pc\<close> at each offset of a list.\<close>

definition seal :: "int \<Rightarrow> navfn \<Rightarrow> navfn option" where
  "seal k s =
     (if inb s k then Some (s\<lparr>costarr := (costarr s)(k := word_of_int COST_OBS)\<rparr>) else None)"

text \<open>The body of the loop "reset values in propagation arrays".\<close>

definition reset_cell :: "bool \<Rightarrow> int \<Rightarrow> navfn \<Rightarrow> navfn" where
  "reset_cell keepit i s =
     s\<lparr>potarr := (potarr s)(i := POT_HIGH),
       costarr := (if \<not> keepit then (costarr s)(i := word_of_int COST_NEUTRAL) else costarr s),
       gradx := (gradx s)(i := 0),
       grady := (grady s)(i := 0)\<rparr>"

definition setupNavFn :: "navfn \<Rightarrow> bool \<Rightarrow> navfn option" where
  "setupNavFn s keepit =
     (let s1 = fold (reset_cell keepit) [0 .. ns s - 1] s
      in do {
        s2 \<leftarrow> foldM seal (map (\<lambda>i. i) [0 .. nx s - 1]) s1;
        s3 \<leftarrow> foldM seal (map (\<lambda>i. (ny s - 1) * nx s + i) [0 .. nx s - 1]) s2;
        s4 \<leftarrow> foldM seal (map (\<lambda>i. i * nx s) [0 .. ny s - 1]) s3;
        s5 \<leftarrow> foldM seal (map (\<lambda>i. nx s - 1 + i * nx s) [0 .. ny s - 1]) s4;
        s6 \<leftarrow> initCost
                (s5\<lparr>curT := real_of_int COST_OBS, curP := PB1, curPe := 0, nextP := PB2,
                    nextPe := 0, overP := PB3, overPe := 0,
                    pending := fold (\<lambda>i p. p(i := False)) [0 .. ns s - 1] (pending s5)\<rparr>)
                (fst (goal s) + snd (goal s) * nx s) 0;
        Some (s6\<lparr>nobs := int (length (filter (\<lambda>i. cost s6 i \<ge> COST_OBS) [0 .. ns s - 1]))\<rparr>)
      })"

subsection \<open>The update rule\<close>

text \<open>
  The new potential that \<^verbatim>\<open>updateCell\<close> computes for a cell of traversability factor
  \<open>hf\<close> from the potentials \<open>l\<close>, \<open>r\<close>, \<open>u\<close>, \<open>d\<close> of its neighbours: the local \<^verbatim>\<open>pot\<close>
  of the function, from "find lowest, and its lowest neighbor" to the end of the
  quadratic approximation.
\<close>

definition updateCell_pot :: "real \<Rightarrow> real \<Rightarrow> real \<Rightarrow> real \<Rightarrow> real \<Rightarrow> real" where
  "updateCell_pot l r u d hf =
     (let tc = (if l < r then l else r);
          ta = (if u < d then u else d);
          dc = tc - ta;
          ta1 = (if dc < 0 then tc else ta);
          dc1 = (if dc < 0 then - dc else dc)
      in if dc1 \<ge> hf then ta1 + hf
         else (let d = dc1 / hf;
                   v = - 0.2301 * d * d + 0.5307 * d + 0.7040
               in ta1 + hf * v))"

text \<open>The same lines of \<^verbatim>\<open>updateCellAstar\<close>, which repeats them.\<close>

definition updateCellAstar_pot :: "real \<Rightarrow> real \<Rightarrow> real \<Rightarrow> real \<Rightarrow> real \<Rightarrow> real" where
  "updateCellAstar_pot l r u d hf =
     (let tc = (if l < r then l else r);
          ta = (if u < d then u else d);
          dc = tc - ta;
          ta1 = (if dc < 0 then tc else ta);
          dc1 = (if dc < 0 then - dc else dc)
      in if dc1 \<ge> hf then ta1 + hf
         else (let d = dc1 / hf;
                   v = - 0.2301 * d * d + 0.5307 * d + 0.7040
               in ta1 + hf * v))"

text \<open>
  \<^verbatim>\<open>updateCell(n)\<close> reads the four neighbours of \<open>n\<close> before any test ("No checking of
  bounds here"), so it is defined where the four are cells of the grid; \<open>n\<close> itself
  then is one, too.
\<close>

definition updateCell :: "navfn \<Rightarrow> int \<Rightarrow> navfn option" where
  "updateCell s n = do {
     l \<leftarrow> pot_at s (n - 1);
     r \<leftarrow> pot_at s (n + 1);
     u \<leftarrow> pot_at s (n - nx s);
     d \<leftarrow> pot_at s (n + nx s);
     c \<leftarrow> cost_at s n;
     if c < COST_OBS then
       (let pot = updateCell_pot l r u d (real_of_int c)
        in if pot < potarr s n then
             (let le = INVSQRT2 * real_of_int (cost s (n - 1));
                  re = INVSQRT2 * real_of_int (cost s (n + 1));
                  ue = INVSQRT2 * real_of_int (cost s (n - nx s));
                  de = INVSQRT2 * real_of_int (cost s (n + nx s));
                  s0 = s\<lparr>potarr := (potarr s)(n := pot)\<rparr>
              in if pot < curT s then
                   (let s1 = (if l > pot + le then push_next s0 (n - 1) else s0);
                        s2 = (if r > pot + re then push_next s1 (n + 1) else s1);
                        s3 = (if u > pot + ue then push_next s2 (n - nx s) else s2)
                    in Some (if d > pot + de then push_next s3 (n + nx s) else s3))
                 else
                   (let s1 = (if l > pot + le then push_over s0 (n - 1) else s0);
                        s2 = (if r > pot + re then push_over s1 (n + 1) else s1);
                        s3 = (if u > pot + ue then push_over s2 (n - nx s) else s2)
                    in Some (if d > pot + de then push_over s3 (n + nx s) else s3)))
           else Some s)
     else Some s
   }"

text \<open>
  \<^verbatim>\<open>updateCellAstar(n)\<close>. The remainder and the quotient by \<^verbatim>\<open>nx\<close> are taken only when
  the new potential is written; a zero \<^verbatim>\<open>nx\<close> is undefined there.
\<close>

definition updateCellAstar :: "navfn \<Rightarrow> int \<Rightarrow> navfn option" where
  "updateCellAstar s n = do {
     l \<leftarrow> pot_at s (n - 1);
     r \<leftarrow> pot_at s (n + 1);
     u \<leftarrow> pot_at s (n - nx s);
     d \<leftarrow> pot_at s (n + nx s);
     c \<leftarrow> cost_at s n;
     if c < COST_OBS then
       (let pot = updateCellAstar_pot l r u d (real_of_int c)
        in if pot < potarr s n then
             (if nx s = 0 then None
              else
                (let le = INVSQRT2 * real_of_int (cost s (n - 1));
                     re = INVSQRT2 * real_of_int (cost s (n + 1));
                     ue = INVSQRT2 * real_of_int (cost s (n - nx s));
                     de = INVSQRT2 * real_of_int (cost s (n + nx s));
                     x = c_mod n (nx s);
                     y = c_div n (nx s);
                     dist = hypot (real_of_int (x - fst (start s)))
                                  (real_of_int (y - snd (start s)))
                            * real_of_int COST_NEUTRAL;
                     s0 = s\<lparr>potarr := (potarr s)(n := pot)\<rparr>;
                     pot = pot + dist
                 in if pot < curT s then
                      (let s1 = (if l > pot + le then push_next s0 (n - 1) else s0);
                           s2 = (if r > pot + re then push_next s1 (n + 1) else s1);
                           s3 = (if u > pot + ue then push_next s2 (n - nx s) else s2)
                       in Some (if d > pot + de then push_next s3 (n + nx s) else s3))
                    else
                      (let s1 = (if l > pot + le then push_over s0 (n - 1) else s0);
                           s2 = (if r > pot + re then push_over s1 (n + 1) else s1);
                           s3 = (if u > pot + ue then push_over s2 (n - nx s) else s2)
                       in Some (if d > pot + de then push_over s3 (n + nx s) else s3))))
           else Some s)
     else Some s
   }"

subsection \<open>Propagation\<close>

text \<open>
  One pass of the main loop. The local pointer \<^verbatim>\<open>pb\<close> and the local count \<^verbatim>\<open>i\<close> are taken
  from \<^verbatim>\<open>curP\<close> and \<^verbatim>\<open>curPe\<close> before each of the two inner loops; the cells are read
  from the buffer as the loop goes.
\<close>

definition clear_pending :: "pbuf \<Rightarrow> int \<Rightarrow> navfn \<Rightarrow> navfn option" where
  "clear_pending b i s =
     (let k = pb s b i
      in if inb s k then Some (s\<lparr>pending := (pending s)(k := False)\<rparr>) else None)"

text \<open>"swap priority blocks curP <=> nextP", then "see if we're done with this priority level".\<close>

definition next_level :: "navfn \<Rightarrow> navfn" where
  "next_level s =
     (let s1 = s\<lparr>curPe := nextPe s, nextPe := 0, curP := nextP s, nextP := curP s\<rparr>
      in if curPe s1 = 0
         then s1\<lparr>curT := curT s1 + priInc s1, curPe := overPe s1, overPe := 0,
                 curP := overP s1, overP := curP s1\<rparr>
         else s1)"

definition dijkstra_cycle :: "navfn \<Rightarrow> navfn option" where
  "dijkstra_cycle s = do {
     s1 \<leftarrow> foldM (clear_pending (curP s)) [0 .. curPe s - 1] s;
     s2 \<leftarrow> foldM (\<lambda>i s'. updateCell s' (pb s' (curP s) i)) [0 .. curPe s - 1] s1;
     Some (next_level s2)
   }"

definition astar_cycle :: "navfn \<Rightarrow> navfn option" where
  "astar_cycle s = do {
     s1 \<leftarrow> foldM (clear_pending (curP s)) [0 .. curPe s - 1] s;
     s2 \<leftarrow> foldM (\<lambda>i s'. updateCellAstar s' (pb s' (curP s) i)) [0 .. curPe s - 1] s1;
     Some (next_level s2)
   }"

text \<open>
  The \<^verbatim>\<open>for\<close> loop of \<^verbatim>\<open>propNavFnDijkstra\<close>, from the value \<open>cycle\<close> of its counter on. It
  returns the counter and the state at the exit, by \<^verbatim>\<open>break\<close> or by \<open>cycle \<ge> cycles\<close>.
\<close>

function propNavFnDijkstra_loop ::
    "int \<Rightarrow> bool \<Rightarrow> int \<Rightarrow> navfn \<Rightarrow> int \<Rightarrow> (int \<times> navfn) option" where
  "propNavFnDijkstra_loop cycles atStart startCell s cycle =
     (if cycle < cycles then
        (if curPe s = 0 \<and> nextPe s = 0 then Some (cycle, s)
         else
           (case dijkstra_cycle s of
              None \<Rightarrow> None
            | Some s' \<Rightarrow>
                (if atStart then
                   (case pot_at s' startCell of
                      None \<Rightarrow> None
                    | Some p \<Rightarrow>
                        if p < POT_HIGH then Some (cycle, s')
                        else propNavFnDijkstra_loop cycles atStart startCell s' (cycle + 1))
                 else propNavFnDijkstra_loop cycles atStart startCell s' (cycle + 1))))
      else Some (cycle, s))"
  by pat_completeness auto
termination
  by (relation "measure (\<lambda>(cycles, atStart, startCell, s, cycle). nat (cycles - cycle))") auto

declare propNavFnDijkstra_loop.simps [simp del]

definition propNavFnDijkstra :: "navfn \<Rightarrow> int \<Rightarrow> bool \<Rightarrow> (bool \<times> navfn) option" where
  "propNavFnDijkstra s cycles atStart =
     (let startCell = snd (start s) * nx s + fst (start s)
      in case propNavFnDijkstra_loop cycles atStart startCell s 0 of
           None \<Rightarrow> None
         | Some (cycle, s') \<Rightarrow> Some (if cycle < cycles then True else False, s'))"

function propNavFnAstar_loop :: "int \<Rightarrow> int \<Rightarrow> navfn \<Rightarrow> int \<Rightarrow> (int \<times> navfn) option" where
  "propNavFnAstar_loop cycles startCell s cycle =
     (if cycle < cycles then
        (if curPe s = 0 \<and> nextPe s = 0 then Some (cycle, s)
         else
           (case astar_cycle s of
              None \<Rightarrow> None
            | Some s' \<Rightarrow>
                (case pot_at s' startCell of
                   None \<Rightarrow> None
                 | Some p \<Rightarrow>
                     if p < POT_HIGH then Some (cycle, s')
                     else propNavFnAstar_loop cycles startCell s' (cycle + 1))))
      else Some (cycle, s))"
  by pat_completeness auto
termination
  by (relation "measure (\<lambda>(cycles, startCell, s, cycle). nat (cycles - cycle))") auto

declare propNavFnAstar_loop.simps [simp del]

definition propNavFnAstar :: "navfn \<Rightarrow> int \<Rightarrow> (bool \<times> navfn) option" where
  "propNavFnAstar s cycles =
     (let dist = hypot (real_of_int (fst (goal s) - fst (start s)))
                       (real_of_int (snd (goal s) - snd (start s)))
                 * real_of_int COST_NEUTRAL;
          s0 = s\<lparr>curT := dist + curT s\<rparr>;
          startCell = snd (start s) * nx s + fst (start s)
      in case propNavFnAstar_loop cycles startCell s0 0 of
           None \<Rightarrow> None
         | Some (cycle, s') \<Rightarrow>
             (case pot_at s' startCell of
                None \<Rightarrow> None
              | Some p \<Rightarrow>
                  Some (if p < POT_HIGH then True else False, s'\<lparr>last_path_cost := p\<rparr>)))"

subsection \<open>The gradient\<close>

text \<open>
  The locals \<^verbatim>\<open>dx\<close> and \<^verbatim>\<open>dy\<close> of \<^verbatim>\<open>gradCell(n)\<close> before they are normalised. In the
  obstacle branch the second test of each pair is made only when the first fails.
\<close>

definition gradCell_d :: "navfn \<Rightarrow> int \<Rightarrow> (real \<times> real) option" where
  "gradCell_d s n = do {
     cv \<leftarrow> pot_at s n;
     if cv \<ge> POT_HIGH then do {
       l \<leftarrow> pot_at s (n - 1);
       dx \<leftarrow> (if l < POT_HIGH then Some (- real_of_int COST_OBS)
              else do {
                r \<leftarrow> pot_at s (n + 1);
                Some (if r < POT_HIGH then real_of_int COST_OBS else 0)
              });
       u \<leftarrow> pot_at s (n - nx s);
       dy \<leftarrow> (if u < POT_HIGH then Some (- real_of_int COST_OBS)
              else do {
                d \<leftarrow> pot_at s (nx s + 1);
                Some (if d < POT_HIGH then real_of_int COST_OBS else 0)
              });
       Some (dx, dy)
     }
     else do {
       l \<leftarrow> pot_at s (n - 1);
       r \<leftarrow> pot_at s (n + 1);
       u \<leftarrow> pot_at s (n - nx s);
       d \<leftarrow> pot_at s (n + nx s);
       Some ((if l < POT_HIGH then l - cv else 0) + (if r < POT_HIGH then cv - r else 0),
             (if u < POT_HIGH then u - cv else 0) + (if d < POT_HIGH then cv - d else 0))
     }
   }"

text \<open>\<^verbatim>\<open>gradCell(n)\<close>: the value returned and the state with the gradient stored.\<close>

definition gradCell :: "navfn \<Rightarrow> int \<Rightarrow> (real \<times> navfn) option" where
  "gradCell s n = do {
     gxn \<leftarrow> gradx_at s n;
     gyn \<leftarrow> grady_at s n;
     if gxn + gyn > 0 then Some (1, s)
     else if n < nx s \<or> n > ns s - nx s then Some (0, s)
     else do {
       (dx, dy) \<leftarrow> gradCell_d s n;
       let norm = hypot dx dy;
       if norm > 0
       then Some (1 / norm, s\<lparr>gradx := (gradx s)(n := (1 / norm) * dx),
                               grady := (grady s)(n := (1 / norm) * dy)\<rparr>)
       else Some (norm, s)
     }
   }"

subsection \<open>The path tracer\<close>

text \<open>The locals of \<^verbatim>\<open>calcPath\<close> that live across the iterations of its loop.\<close>

record cursor =
  stc :: int
  dx :: real
  dy :: real

text \<open>
  The test "check for potentials at eight positions near cell": the disjunction reads
  the cells in its order and stops at the first that is at \<^verbatim>\<open>POT_HIGH\<close> or above.
\<close>

fun any_high :: "navfn \<Rightarrow> int list \<Rightarrow> bool option" where
  "any_high s [] = Some False"
| "any_high s (k # ks) =
     (case pot_at s k of
        None \<Rightarrow> None
      | Some p \<Rightarrow> if p \<ge> POT_HIGH then Some True else any_high s ks)"

text \<open>
  One of the eight steps "check eight neighbors to find the lowest", on the locals
  \<^verbatim>\<open>minp\<close> (an \<^verbatim>\<open>int\<close>) and \<^verbatim>\<open>minc\<close>: the comparison is made on the potential itself,
  the assignment \<^verbatim>\<open>minp = potarr[st]\<close> converts it to \<^verbatim>\<open>int\<close>.
\<close>

definition lower :: "navfn \<Rightarrow> int \<Rightarrow> int \<times> int \<Rightarrow> (int \<times> int) option" where
  "lower s st m = do {
     p \<leftarrow> pot_at s st;
     if p < real_of_int (fst m) then do {
       minp \<leftarrow> float_to_int p;
       Some (minp, st)
     }
     else Some m
   }"

text \<open>
  The end of the gradient branch, for the interpolated gradient \<open>(x, y)\<close>: "move in the
  right direction", then "check for overflow", four tests in a row, each made once.
\<close>

definition advance :: "navfn \<Rightarrow> cursor \<Rightarrow> real \<Rightarrow> real \<Rightarrow> cursor" where
  "advance s c x y =
     (let ss = pathStep s / hypot x y;
          c0 = c\<lparr>dx := dx c + x * ss, dy := dy c + y * ss\<rparr>;
          c1 = (if dx c0 > 1 then c0\<lparr>stc := stc c0 + 1, dx := dx c0 - 1\<rparr> else c0);
          c2 = (if dx c1 < - 1 then c1\<lparr>stc := stc c1 - 1, dx := dx c1 + 1\<rparr> else c1);
          c3 = (if dy c2 > 1 then c2\<lparr>stc := stc c2 + nx s, dy := dy c2 - 1\<rparr> else c2)
      in if dy c3 < - 1 then c3\<lparr>stc := stc c3 - nx s, dy := dy c3 + 1\<rparr> else c3)"

text \<open>
  The branch "Pot fn boundary, following grid" of an iteration of \<^verbatim>\<open>calcPath\<close>, at the
  state \<open>s\<close> with the point of the iteration already in the path: \<open>Inl r\<close> when the
  function returns \<open>r\<close> there, \<open>Inr c\<close> with the locals for the next iteration otherwise.
  It begins with \<^verbatim>\<open>int minp = potarr[stc]\<close>, a conversion that is undefined when the
  cell \<open>stc\<close> itself is at \<^verbatim>\<open>POT_HIGH\<close>.
\<close>

definition grid_walk :: "navfn \<Rightarrow> cursor \<Rightarrow> ((int + cursor) \<times> navfn) option" where
  "grid_walk s c = do {
     let stcnx = stc c + nx s;
     let stcpx = stc c - nx s;
     p0 \<leftarrow> pot_at s (stc c);
     minp \<leftarrow> float_to_int p0;
     m \<leftarrow> foldM (lower s)
            [stcpx - 1, stcpx, stcpx + 1, stc c - 1, stc c + 1, stcnx - 1, stcnx, stcnx + 1]
            (minp, stc c);
     pm \<leftarrow> pot_at s (snd m);
     if pm \<ge> POT_HIGH then Some (Inl 0, s)
     else Some (Inr \<lparr>stc = snd m, dx = 0, dy = 0\<rparr>, s)
   }"

text \<open>
  The branch "have a good gradient here", in the steps of its comments: "get grad at
  four positions near cell", "get interpolated gradient", "check for zero gradient",
  and the move.
\<close>

definition grad_four :: "navfn \<Rightarrow> cursor \<Rightarrow> navfn option" where
  "grad_four s c = do {
     let stcnx = stc c + nx s;
     (g1, s2) \<leftarrow> gradCell s (stc c);
     (g2, s3) \<leftarrow> gradCell s2 (stc c + 1);
     (g3, s4) \<leftarrow> gradCell s3 stcnx;
     (g4, s5) \<leftarrow> gradCell s4 (stcnx + 1);
     Some s5
   }"

definition interpolate :: "navfn \<Rightarrow> cursor \<Rightarrow> (real \<times> real) option" where
  "interpolate s c = do {
     let stcnx = stc c + nx s;
     gx0 \<leftarrow> gradx_at s (stc c);
     gx1 \<leftarrow> gradx_at s (stc c + 1);
     gx2 \<leftarrow> gradx_at s stcnx;
     gx3 \<leftarrow> gradx_at s (stcnx + 1);
     gy0 \<leftarrow> grady_at s (stc c);
     gy1 \<leftarrow> grady_at s (stc c + 1);
     gy2 \<leftarrow> grady_at s stcnx;
     gy3 \<leftarrow> grady_at s (stcnx + 1);
     let x1 = (1 - dx c) * gx0 + dx c * gx1;
     let x2 = (1 - dx c) * gx2 + dx c * gx3;
     let x = (1 - dy c) * x1 + dy c * x2;
     let y1 = (1 - dx c) * gy0 + dx c * gy1;
     let y2 = (1 - dx c) * gy2 + dx c * gy3;
     let y = (1 - dy c) * y1 + dy c * y2;
     Some (x, y)
   }"

definition follow_gradient :: "navfn \<Rightarrow> cursor \<Rightarrow> ((int + cursor) \<times> navfn) option" where
  "follow_gradient s c = do {
     s5 \<leftarrow> grad_four s c;
     (x, y) \<leftarrow> interpolate s5 c;
     if x = 0 \<and> y = 0 then Some (Inl 0, s5)
     else Some (Inr (advance s5 c x y), s5)
   }"

text \<open>
  One iteration of the loop of \<^verbatim>\<open>calcPath\<close>, up to the choice between the two
  branches. The path arrays have \<^verbatim>\<open>npathbuf\<close> elements. The index \<^verbatim>\<open>nearest_point\<close> is made
  of the two conversions \<^verbatim>\<open>(int)round(dx)\<close> and \<^verbatim>\<open>(int)(nx*round(dy))\<close>.
\<close>

definition calcPath_iter :: "navfn \<Rightarrow> cursor \<Rightarrow> ((int + cursor) \<times> navfn) option" where
  "calcPath_iter s c = do {
     rx \<leftarrow> float_to_int (real_of_int (c_round (dx c)));
     ry \<leftarrow> float_to_int (real_of_int (nx s) * real_of_int (c_round (dy c)));
     let nearest_point = max 0 (min (nx s * ny s - 1) (stc c + rx + ry));
     p \<leftarrow> pot_at s nearest_point;
     if p < real_of_int COST_NEUTRAL then
       (if 0 \<le> npath s \<and> npath s < npathbuf s
        then Some (Inl (npath s + 1),
                   s\<lparr>pathx := (pathx s)(npath s := real_of_int (fst (goal s))),
                     pathy := (pathy s)(npath s := real_of_int (snd (goal s))),
                     npath := npath s + 1\<rparr>)
        else None)
     else if stc c < nx s \<or> stc c > ns s - nx s then Some (Inl 0, s)
     else if \<not> (0 \<le> npath s \<and> npath s < npathbuf s) \<or> nx s = 0 then None
     else do {
       let s1 = s\<lparr>pathx := (pathx s)(npath s := real_of_int (c_mod (stc c) (nx s)) + dx c),
                  pathy := (pathy s)(npath s := real_of_int (c_div (stc c) (nx s)) + dy c),
                  npath := npath s + 1\<rparr>;
       let oscillation_detected =
             (npath s1 > 2 \<and> pathx s1 (npath s1 - 1) = pathx s1 (npath s1 - 3)
              \<and> pathy s1 (npath s1 - 1) = pathy s1 (npath s1 - 3));
       let stcnx = stc c + nx s;
       let stcpx = stc c - nx s;
       high \<leftarrow> any_high s1 [stc c, stc c + 1, stc c - 1, stcnx, stcnx + 1, stcnx - 1,
                            stcpx, stcpx + 1, stcpx - 1];
       if high \<or> oscillation_detected then grid_walk s1 c else follow_gradient s1 c
     }
   }"

text \<open>The loop with \<open>k\<close> iterations left; "out of cycles, return failure" at \<open>k = 0\<close>.\<close>

fun calcPath_loop :: "nat \<Rightarrow> navfn \<Rightarrow> cursor \<Rightarrow> (int \<times> navfn) option" where
  "calcPath_loop 0 s c = Some (0, s)"
| "calcPath_loop (Suc k) s c =
     (case calcPath_iter s c of
        None \<Rightarrow> None
      | Some (Inl r, s') \<Rightarrow> Some (r, s')
      | Some (Inr c', s') \<Rightarrow> calcPath_loop k s' c')"

text \<open>
  The state and the locals with which \<^verbatim>\<open>calcPath(n, st)\<close> enters its loop: the path
  arrays are allocated anew when they are shorter than \<open>n\<close>; \<open>st\<close> is \<open>None\<close> for the
  default argument \<^verbatim>\<open>NULL\<close>.
\<close>

definition calcPath_init :: "navfn \<Rightarrow> int \<Rightarrow> (int \<times> int) option \<Rightarrow> navfn \<times> cursor" where
  "calcPath_init s n st =
     (let s1 = (if npathbuf s < n then s\<lparr>npathbuf := n\<rparr> else s);
          st1 = (case st of None \<Rightarrow> start s | Some q \<Rightarrow> q)
      in (s1\<lparr>npath := 0\<rparr>, \<lparr>stc = snd st1 * nx s + fst st1, dx = 0, dy = 0\<rparr>))"

definition calcPath :: "navfn \<Rightarrow> int \<Rightarrow> (int \<times> int) option \<Rightarrow> (int \<times> navfn) option" where
  "calcPath s n st =
     (case calcPath_init s n st of (s0, c0) \<Rightarrow> calcPath_loop (nat n) s0 c0)"


subsection \<open>The planning entry points\<close>

definition calcNavFnDijkstra :: "navfn \<Rightarrow> bool \<Rightarrow> (bool \<times> navfn) option" where
  "calcNavFnDijkstra s atStart = do {
     s1 \<leftarrow> setupNavFn s True;
     (b, s2) \<leftarrow> propNavFnDijkstra s1 (max (c_div (nx s * ny s) 20) (nx s + ny s)) atStart;
     (len, s3) \<leftarrow> calcPath s2 (c_div (nx s * ny s) 2) None;
     Some (len > 0, s3)
   }"

definition calcNavFnAstar :: "navfn \<Rightarrow> (bool \<times> navfn) option" where
  "calcNavFnAstar s = do {
     s1 \<leftarrow> setupNavFn s True;
     (b, s2) \<leftarrow> propNavFnAstar s1 (max (c_div (nx s * ny s) 20) (nx s + ny s));
     (len, s3) \<leftarrow> calcPath s2 (nx s * 4) None;
     Some (len > 0, s3)
   }"

section \<open>Notions of the specification\<close>

text \<open>
  The update rule in the words of the specification: with \<open>ta\<close> the smaller and \<open>tc\<close> the
  larger of \<open>min u d\<close> and \<open>min l r\<close>, and \<open>dc = tc - ta\<close>, the new potential is
  \<open>ta + hf\<close> when \<open>dc \<ge> hf\<close>, and \<open>ta + hf * v\<close> with \<open>d = dc / hf\<close> and
  \<open>v = -0.2301 d\<^sup>2 + 0.5307 d + 0.7040\<close> otherwise.
\<close>

definition spec_candidate :: "real \<Rightarrow> real \<Rightarrow> real \<Rightarrow> real \<Rightarrow> real \<Rightarrow> real" where
  "spec_candidate l r u d hf =
     (let ta = min (min u d) (min l r);
          tc = max (min u d) (min l r);
          dc = tc - ta
      in if dc \<ge> hf then ta + hf
         else ta + hf * (- 0.2301 * (dc / hf)\<^sup>2 + 0.5307 * (dc / hf) + 0.7040))"

text \<open>The admission test of a push, for the count \<open>cnt\<close> of the buffer pushed to.\<close>

definition admits :: "navfn \<Rightarrow> int \<Rightarrow> int \<Rightarrow> bool" where
  "admits s cnt n =
     (0 \<le> n \<and> n < ns s \<and> \<not> pending s n \<and> cost s n < COST_OBS \<and> cnt < PRIORITYBUFSIZE)"

text \<open>A sequence of updates, each by one of the two update functions at some cell.\<close>

datatype update = Dijkstra int | Astar int

fun apply_update :: "update \<Rightarrow> navfn \<Rightarrow> navfn option" where
  "apply_update (Dijkstra n) s = updateCell s n"
| "apply_update (Astar n) s = updateCellAstar s n"

definition updates :: "update list \<Rightarrow> navfn \<Rightarrow> navfn option" where
  "updates us s = foldM apply_update us s"

text \<open>
  The cells that the four loops "outer bounds of cost array" of \<^verbatim>\<open>setupNavFn\<close> write: row
  0, row \<open>ny - 1\<close>, column 0 and column \<open>nx - 1\<close>.
\<close>

definition sealed :: "navfn \<Rightarrow> int \<Rightarrow> bool" where
  "sealed s k \<longleftrightarrow>
     (\<exists>i. 0 \<le> i \<and> i < nx s \<and> (k = i \<or> k = (ny s - 1) * nx s + i)) \<or>
     (\<exists>i. 0 \<le> i \<and> i < ny s \<and> (k = i * nx s \<or> k = nx s - 1 + i * nx s))"

text \<open>The state of \<^verbatim>\<open>setupNavFn\<close> before it seeds the goal, in closed form.\<close>

definition setup_reset :: "navfn \<Rightarrow> bool \<Rightarrow> navfn" where
  "setup_reset s keepit =
     s\<lparr>potarr := (\<lambda>k. if inb s k then POT_HIGH else potarr s k),
       costarr := (\<lambda>k. if sealed s k then word_of_int COST_OBS
                        else if inb s k \<and> \<not> keepit then word_of_int COST_NEUTRAL
                        else costarr s k),
       gradx := (\<lambda>k. if inb s k then 0 else gradx s k),
       grady := (\<lambda>k. if inb s k then 0 else grady s k),
       curT := real_of_int COST_OBS, curP := PB1, curPe := 0, nextP := PB2,
       nextPe := 0, overP := PB3, overPe := 0,
       pending := (\<lambda>k. if inb s k then False else pending s k)\<rparr>"

text \<open>
  The result of a propagation is stated over the passes of its main loop: \<open>passes k s\<close> is
  the state after \<open>k\<close> passes from \<open>s\<close>, each pass being the body of the loop of
  \<^verbatim>\<open>propNavFnDijkstra\<close> up to its second \<^verbatim>\<open>break\<close>; a state is drained when the buffers
  \<^verbatim>\<open>curP\<close> and \<^verbatim>\<open>nextP\<close> are both empty, the test of the first \<^verbatim>\<open>break\<close>.
\<close>

fun passes :: "nat \<Rightarrow> navfn \<Rightarrow> navfn option" where
  "passes 0 s = Some s"
| "passes (Suc k) s = (case dijkstra_cycle s of None \<Rightarrow> None | Some s' \<Rightarrow> passes k s')"

definition drained :: "navfn \<Rightarrow> bool" where
  "drained s \<longleftrightarrow> curPe s = 0 \<and> nextPe s = 0"

text \<open>The index of the start cell, \<^verbatim>\<open>start[1]*nx + start[0]\<close>.\<close>

definition start_cell :: "navfn \<Rightarrow> int" where
  "start_cell s = snd (start s) * nx s + fst (start s)"

section \<open>Sample planners\<close>

text \<open>
  Planners built as a caller builds one: a grid of 5 by 5 cells on cleared memory, an
  incoming ROS cost map \<open>cmap\<close> (unknown cells not allowed), a goal \<open>g\<close> and a start \<open>st\<close>;
  then the state that \<^verbatim>\<open>setupNavFn(true)\<close> leaves of it.
\<close>

definition mem0 :: navfn where
  "mem0 = \<lparr>nx = 0, ny = 0, ns = 0, costarr = (\<lambda>_. 0), potarr = (\<lambda>_. 0), pending = (\<lambda>_. False),
           nobs = 0, pb = (\<lambda>_ _. 0), curP = PB1, nextP = PB2, overP = PB3, curPe = 0,
           nextPe = 0, overPe = 0, curT = 0, priInc = 0, goal = (0, 0), start = (0, 0),
           gradx = (\<lambda>_. 0), grady = (\<lambda>_. 0), pathx = (\<lambda>_. 0), pathy = (\<lambda>_. 0), npath = 0,
           npathbuf = 0, pathStep = 0, last_path_cost = 0\<rparr>"

definition planner :: "(int \<Rightarrow> costtype) \<Rightarrow> int \<times> int \<Rightarrow> int \<times> int \<Rightarrow> navfn" where
  "planner cmap g st = setStart (setGoal (setCostmap (NavFn mem0 5 5) cmap True False) g) st"

definition ready :: "(int \<Rightarrow> costtype) \<Rightarrow> int \<times> int \<Rightarrow> int \<times> int \<Rightarrow> navfn" where
  "ready cmap g st = the (setupNavFn (planner cmap g st) True)"

text \<open>Free space everywhere, the goal at (2, 2) and the start at (1, 1).\<close>

definition plan5 :: navfn where
  "plan5 = planner (\<lambda>_. 0) (2, 2) (1, 1)"

definition st5 :: navfn where
  "st5 = ready (\<lambda>_. 0) (2, 2) (1, 1)"

text \<open>
  The goal at (2, 2) and the start at (1, 1), with lethal obstacles in the cells 7 and
  11: together with the border they wall the start in.
\<close>

definition walled5 :: navfn where
  "walled5 = ready (\<lambda>k. if k = 7 \<or> k = 11 then 254 else 0) (2, 2) (1, 1)"

text \<open>
  Free space everywhere, the goal at (1, 2) and the start at (2, 2), after the
  propagation \<^verbatim>\<open>propNavFnDijkstra(10, false)\<close>: 10 is the budget \<open>max (nx * ny / 20) (nx + ny)\<close>
  that \<^verbatim>\<open>calcNavFnDijkstra\<close> gives it.
\<close>

definition flow5 :: navfn where
  "flow5 = snd (the (propNavFnDijkstra (ready (\<lambda>_. 0) (1, 2) (2, 2)) 10 False))"

text \<open>
  The states of a propagation: the state that \<^verbatim>\<open>setupNavFn\<close> leaves of \<open>s0\<close>, and every
  state that follows it by a call of one of the update functions, by one pass of the
  main loop of a propagation, or by a whole propagation.
\<close>

inductive reachable :: "navfn \<Rightarrow> navfn \<Rightarrow> bool" for s0 :: navfn where
  init: "setupNavFn s0 keepit = Some s \<Longrightarrow> reachable s0 s"
| cell: "reachable s0 s \<Longrightarrow> updateCell s n = Some s' \<Longrightarrow> reachable s0 s'"
| cellA: "reachable s0 s \<Longrightarrow> updateCellAstar s n = Some s' \<Longrightarrow> reachable s0 s'"
| pass: "reachable s0 s \<Longrightarrow> dijkstra_cycle s = Some s' \<Longrightarrow> reachable s0 s'"
| passA: "reachable s0 s \<Longrightarrow> astar_cycle s = Some s' \<Longrightarrow> reachable s0 s'"
| run: "reachable s0 s \<Longrightarrow> propNavFnDijkstra s cycles atStart = Some (b, s') \<Longrightarrow> reachable s0 s'"
| runA: "reachable s0 s \<Longrightarrow> propNavFnAstar s cycles = Some (b, s') \<Longrightarrow> reachable s0 s'"

text \<open>The index of the goal cell.\<close>

definition goal_cell :: "navfn \<Rightarrow> int" where
  "goal_cell s = fst (goal s) + snd (goal s) * nx s"

text \<open>
  What a step of a propagation keeps: the grid, the costs and the goal stay, and the
  potential of a cell changes only where the cost is below \<^verbatim>\<open>COST_OBS\<close>.
\<close>

definition keeps :: "navfn \<Rightarrow> navfn \<Rightarrow> bool" where
  "keeps s s' \<longleftrightarrow>
     ns s' = ns s \<and> nx s' = nx s \<and> goal s' = goal s \<and> costarr s' = costarr s \<and>
     (\<forall>k. potarr s' k \<noteq> potarr s k \<longrightarrow> cost s k < COST_OBS)"

text \<open>The invariant: away from the goal cell, every obstacle cell is at \<^verbatim>\<open>POT_HIGH\<close>.\<close>

definition obstacles_high :: "navfn \<Rightarrow> bool" where
  "obstacles_high s \<longleftrightarrow>
     (\<forall>k. inb s k \<and> k \<noteq> goal_cell s \<and> cost s k \<ge> COST_OBS \<longrightarrow> potarr s k = POT_HIGH)"

subsection \<open>The A* variant in the words of the specification\<close>

text \<open>
  The heuristic of the A* variant in the words of the specification: the Euclidean
  distance from the cell \<open>n\<close>, at column \<open>n mod nx\<close> and row \<open>n div nx\<close>, to the start,
  scaled by \<^verbatim>\<open>COST_NEUTRAL\<close>.
\<close>

definition heuristic :: "navfn \<Rightarrow> int \<Rightarrow> real" where
  "heuristic s n =
     sqrt ((real_of_int (n mod nx s - fst (start s)))\<^sup>2
           + (real_of_int (n div nx s - snd (start s)))\<^sup>2)
     * real_of_int COST_NEUTRAL"

text \<open>
  The dispatch of the neighbours in the words of the specification, with the two
  places where a potential enters it kept apart: each neighbour \<open>m\<close> of \<open>n\<close>, of potential
  \<open>pm\<close> and edge weight \<open>INVSQRT2 * cost m\<close>, is pushed when \<open>pm > q + e\<close>, onto \<^verbatim>\<open>nextP\<close>
  when \<open>t < curT\<close> and onto \<^verbatim>\<open>overP\<close> otherwise.
\<close>

definition dispatch ::
    "navfn \<Rightarrow> int \<Rightarrow> real \<Rightarrow> real \<Rightarrow> real \<Rightarrow> real \<Rightarrow> real \<Rightarrow> real \<Rightarrow> navfn" where
  "dispatch s n l r u d q t =
     (let push = (if t < curT s then push_next else push_over);
          s1 = (if l > q + INVSQRT2 * real_of_int (cost s (n - 1)) then push s (n - 1) else s);
          s2 = (if r > q + INVSQRT2 * real_of_int (cost s (n + 1)) then push s1 (n + 1) else s1);
          s3 = (if u > q + INVSQRT2 * real_of_int (cost s (n - nx s)) then push s2 (n - nx s)
                else s2)
      in if d > q + INVSQRT2 * real_of_int (cost s (n + nx s)) then push s3 (n + nx s) else s3)"

text \<open>
  The update of cell \<open>n\<close> in three phases (gather, compute, dispatch), where the
  dispatch adds \<open>a\<close> to the new potential in the test of each neighbour and \<open>t\<close> in the
  comparison with the threshold \<^verbatim>\<open>curT\<close>.
\<close>

definition spec_update :: "navfn \<Rightarrow> int \<Rightarrow> real \<Rightarrow> real \<Rightarrow> navfn" where
  "spec_update s n a t =
     (let l = potarr s (n - 1); r = potarr s (n + 1);
          u = potarr s (n - nx s); d = potarr s (n + nx s);
          pot = spec_candidate l r u d (real_of_int (cost s n))
      in if cost s n < COST_OBS \<and> pot < potarr s n
         then dispatch (s\<lparr>potarr := (potarr s)(n := pot)\<rparr>) n l r u d (pot + a) (pot + t)
         else s)"

subsection \<open>A state in the middle of a propagation\<close>

text \<open>
  A state in the middle of a propagation over free space on the 5 by 5 grid: the goal
  is cell 11, the start is cell 7, cell 6 has been given the potential 50 and cell 7
  the potential 100, cell 12 is the content of the current buffer and no cell is
  pending.
\<close>

definition mid5 :: navfn where
  "mid5 = \<lparr>nx = 5, ny = 5, ns = 25,
            costarr = (\<lambda>k. if k \<in> {6, 7, 8, 11, 12, 13, 16, 17, 18} then 50 else 254),
            potarr = (\<lambda>k. if k = 11 then 0 else if k = 6 then 50 else if k = 7 then 100
                           else POT_HIGH),
            pending = (\<lambda>_. False), nobs = 16, pb = (\<lambda>_ _. 12), curP = PB1, nextP = PB2,
            overP = PB3, curPe = 1, nextPe = 0, overPe = 0, curT = 254, priInc = 100,
            goal = (1, 2), start = (2, 1), gradx = (\<lambda>_. 0), grady = (\<lambda>_. 0),
            pathx = (\<lambda>_. 0), pathy = (\<lambda>_. 0), npath = 0, npathbuf = 0, pathStep = 1 / 2,
            last_path_cost = 0\<rparr>"

section \<open>Properties\<close>

subsection \<open>What a push leaves alone\<close>

lemma push_next_fields [simp]:
  "potarr (push_next s n) = potarr s" "costarr (push_next s n) = costarr s"
  "ns (push_next s n) = ns s" "nx (push_next s n) = nx s" "ny (push_next s n) = ny s"
  "curT (push_next s n) = curT s" "goal (push_next s n) = goal s"
  "start (push_next s n) = start s" "pathStep (push_next s n) = pathStep s"
  "gradx (push_next s n) = gradx s" "grady (push_next s n) = grady s"
  by (simp_all add: push_next_def)

lemma push_over_fields [simp]:
  "potarr (push_over s n) = potarr s" "costarr (push_over s n) = costarr s"
  "ns (push_over s n) = ns s" "nx (push_over s n) = nx s" "ny (push_over s n) = ny s"
  "curT (push_over s n) = curT s" "goal (push_over s n) = goal s"
  "start (push_over s n) = start s" "pathStep (push_over s n) = pathStep s"
  "gradx (push_over s n) = gradx s" "grady (push_over s n) = grady s"
  by (simp_all add: push_over_def)

lemma push_cur_fields [simp]:
  "potarr (push_cur s n) = potarr s" "costarr (push_cur s n) = costarr s"
  "ns (push_cur s n) = ns s" "nx (push_cur s n) = nx s" "ny (push_cur s n) = ny s"
  "curT (push_cur s n) = curT s" "goal (push_cur s n) = goal s"
  "start (push_cur s n) = start s" "pathStep (push_cur s n) = pathStep s"
  "gradx (push_cur s n) = gradx s" "grady (push_cur s n) = grady s"
  by (simp_all add: push_cur_def)

lemma cost_push [simp]:
  "cost (push_cur s n) = cost s" "cost (push_next s n) = cost s" "cost (push_over s n) = cost s"
  by (simp_all add: cost_def fun_eq_iff)

lemma inb_push [simp]:
  "inb (push_cur s n) = inb s" "inb (push_next s n) = inb s" "inb (push_over s n) = inb s"
  by (simp_all add: inb_def fun_eq_iff)

subsection \<open>The update rule\<close>

lemma pot_code_spec:
  fixes a b hf :: real
  shows "(let dc = b - a; ta1 = (if dc < 0 then b else a); dc1 = (if dc < 0 then - dc else dc)
          in if dc1 \<ge> hf then ta1 + hf
             else (let d = dc1 / hf; v = - 0.2301 * d * d + 0.5307 * d + 0.7040
                   in ta1 + hf * v))
         = (let ta = min a b; tc = max a b; dc = tc - ta
            in if dc \<ge> hf then ta + hf
               else ta + hf * (- 0.2301 * (dc / hf)\<^sup>2 + 0.5307 * (dc / hf) + 0.7040))"
proof (cases "b - a < 0")
  case True
  then have m: "min a b = b" "max a b = a" by linarith+
  have e: "- (b - a) = a - b" by simp
  show ?thesis
    unfolding Let_def m using True by (simp only: if_True e power2_eq_square mult.assoc)
next
  case False
  then have m: "min a b = a" "max a b = b" by linarith+
  show ?thesis
    unfolding Let_def m using False by (simp only: if_False power2_eq_square mult.assoc)
qed

lemma updateCell_pot_spec: "updateCell_pot l r u d hf = spec_candidate l r u d hf"
proof -
  have tc: "(if l < r then l else r) = min l r" by (simp add: min_def)
  have ta: "(if u < d then u else d) = min u d" by (simp add: min_def)
  show ?thesis
    unfolding updateCell_pot_def spec_candidate_def
    using pot_code_spec [of "min l r" "min u d" hf]
    by (simp only: Let_def tc ta)
qed

lemma updateCellAstar_pot_eq: "updateCellAstar_pot l r u d hf = updateCell_pot l r u d hf"
  by (simp only: updateCellAstar_pot_def updateCell_pot_def)

lemma updateCell_Some:
  assumes "inb s (n - 1)" "inb s (n + 1)" "inb s (n - nx s)" "inb s (n + nx s)"
  shows "\<exists>s'. updateCell s n = Some s'"
proof -
  have n: "inb s n" using assms by (auto simp: inb_def)
  show ?thesis
    using assms n by (simp add: updateCell_def pot_at_def cost_at_def Let_def)
qed

text \<open>The potentials after \<^verbatim>\<open>updateCell(n)\<close>: one cell at most changes.\<close>

lemma updateCell_potarr:
  assumes "updateCell s n = Some s'"
  shows "potarr s' =
     (if cost s n < COST_OBS \<and>
         updateCell_pot (potarr s (n - 1)) (potarr s (n + 1)) (potarr s (n - nx s))
           (potarr s (n + nx s)) (real_of_int (cost s n)) < potarr s n
      then (potarr s)
             (n := updateCell_pot (potarr s (n - 1)) (potarr s (n + 1)) (potarr s (n - nx s))
                     (potarr s (n + nx s)) (real_of_int (cost s n)))
      else potarr s)"
  using assms
  apply (simp add: updateCell_def pot_at_def cost_at_def Let_def split: if_splits)
  apply (auto simp: if_distrib [of potarr] cong: if_cong)
  done

lemma updateCellAstar_potarr:
  assumes "updateCellAstar s n = Some s'"
  shows "potarr s' =
     (if cost s n < COST_OBS \<and>
         updateCellAstar_pot (potarr s (n - 1)) (potarr s (n + 1)) (potarr s (n - nx s))
           (potarr s (n + nx s)) (real_of_int (cost s n)) < potarr s n
      then (potarr s)
             (n := updateCellAstar_pot (potarr s (n - 1)) (potarr s (n + 1))
                     (potarr s (n - nx s)) (potarr s (n + nx s)) (real_of_int (cost s n)))
      else potarr s)"
  using assms
  apply (simp add: updateCellAstar_def pot_at_def cost_at_def Let_def split: if_splits)
  apply (auto simp: if_distrib [of potarr] cong: if_cong)
  done

subsection \<open>The cost translator and the set-up\<close>

lemma fold_cells:
  "fold (\<lambda>j cm. cm(g j := h (g j))) js cm k = (if k \<in> g ` set js then h k else cm k)"
  by (induction js arbitrary: cm) auto

lemma fold_rows:
  "fold (\<lambda>i cm. fold (\<lambda>j cm. cm(g i j := h (g i j))) js cm) is cm k
     = (if \<exists>i\<in>set is. k \<in> g i ` set js then h k else cm k)"
  by (induction "is" arbitrary: cm) (auto simp: fold_cells)

lemma cell_index:
  fixes k w h :: int
  assumes "0 \<le> k" "k < w * h" "0 < w"
  shows "\<exists>i\<in>{0 .. h - 1}. k \<in> (\<lambda>j. i * w + j) ` {0 .. w - 1}"
proof -
  have m: "0 \<le> k mod w" "k mod w < w" using assms by simp_all
  have e: "w * (k div w) + k mod w = k" by simp
  have lo: "0 \<le> k div w" using assms by (simp add: pos_imp_zdiv_nonneg_iff)
  have hi: "k div w < h"
  proof (rule ccontr)
    assume "\<not> k div w < h"
    then have "w * h \<le> w * (k div w)" using assms(3) by (simp add: mult_left_mono)
    with e m assms(2) show False by linarith
  qed
  have "k = (k div w) * w + k mod w" by simp
  then have "k \<in> (\<lambda>j. (k div w) * w + j) ` {0 .. w - 1}"
    using m by (intro image_eqI [of _ _ "k mod w"]) simp_all
  moreover have "k div w \<in> {0 .. h - 1}" using lo hi by simp
  ultimately show ?thesis by blast
qed

lemma setCostmap_ros:
  assumes "0 \<le> k" "k < nx s * ny s" "0 < nx s"
  shows "costarr (setCostmap s cmap True allow_unknown) k = ros_cell allow_unknown (cmap k)"
proof -
  have "\<exists>i\<in>set [0 .. ny s - 1]. k \<in> (\<lambda>j. i * nx s + j) ` set [0 .. nx s - 1]"
    using cell_index [OF assms] by simp
  then show ?thesis
    by (simp add: setCostmap_def
        fold_rows [where g = "\<lambda>i j. i * nx s + j" and h = "\<lambda>k. ros_cell allow_unknown (cmap k)"])
qed

lemma foldM_seal:
  "\<forall>k\<in>set ks. inb s k \<Longrightarrow>
   foldM seal ks s
     = Some (s\<lparr>costarr := (\<lambda>k. if k \<in> set ks then word_of_int COST_OBS else costarr s k)\<rparr>)"
proof (induction ks arbitrary: s)
  case Nil
  then show ?case by simp
next
  case (Cons k ks)
  let ?s1 = "s\<lparr>costarr := (costarr s)(k := word_of_int COST_OBS)\<rparr>"
  have 1: "seal k s = Some ?s1" using Cons.prems by (simp add: seal_def)
  have 2: "\<forall>j\<in>set ks. inb ?s1 j" using Cons.prems by (simp add: inb_def)
  have 3: "(\<lambda>j. if j \<in> set ks then word_of_int COST_OBS else costarr ?s1 j)
          = (\<lambda>j. if j \<in> set (k # ks) then word_of_int COST_OBS else costarr s j)"
    by (auto simp: fun_eq_iff)
  show ?case
    using Cons.IH [OF 2] by (simp add: 1 3)
qed

lemma foldM_seal_None:
  "\<not> (\<forall>k\<in>set ks. inb s k) \<Longrightarrow> foldM seal ks s = None"
proof (induction ks arbitrary: s)
  case Nil
  then show ?case by simp
next
  case (Cons k ks)
  show ?case
  proof (cases "inb s k")
    case False
    then show ?thesis by (simp add: seal_def)
  next
    case True
    let ?s1 = "s\<lparr>costarr := (costarr s)(k := word_of_int COST_OBS)\<rparr>"
    have "\<not> (\<forall>j\<in>set ks. inb ?s1 j)" using Cons.prems True by (simp add: inb_def)
    from Cons.IH [OF this] True show ?thesis by (simp add: seal_def)
  qed
qed

lemma fold_reset:
  "fold (reset_cell keepit) is s
   = s\<lparr>potarr := (\<lambda>k. if k \<in> set is then POT_HIGH else potarr s k),
       costarr := (\<lambda>k. if k \<in> set is \<and> \<not> keepit then word_of_int COST_NEUTRAL else costarr s k),
       gradx := (\<lambda>k. if k \<in> set is then 0 else gradx s k),
       grady := (\<lambda>k. if k \<in> set is then 0 else grady s k)\<rparr>"
proof (induction "is" arbitrary: s)
  case Nil
  then show ?case by simp
next
  case (Cons i "is")
  show ?case
    by (simp add: Cons.IH) (auto simp: reset_cell_def fun_eq_iff intro!: navfn.equality)
qed

lemma fold_clear:
  "fold (\<lambda>i p. p(i := False)) is p = (\<lambda>k. if k \<in> set is then False else p k)"
  by (induction "is" arbitrary: p) (auto simp: fun_eq_iff)


lemma grid_index:
  fixes i j w h :: int
  assumes "0 \<le> i" "i < h" "0 \<le> j" "j < w"
  shows "0 \<le> i * w + j \<and> i * w + j < w * h"
proof -
  have w: "0 < w" using assms by linarith
  have "0 \<le> i * w" using assms w by simp
  moreover have "i * w \<le> (h - 1) * w" using assms w by (intro mult_right_mono) simp_all
  moreover have "(h - 1) * w + w = w * h" by (simp add: algebra_simps)
  ultimately show ?thesis using assms by linarith
qed

lemma mem_map_upto: "k \<in> set (map f [a .. b]) \<longleftrightarrow> (\<exists>i. a \<le> i \<and> i \<le> b \<and> k = f i)"
  by auto

lemma sealed_inb:
  assumes "0 < nx s" "0 < ny s" "ns s = nx s * ny s" "sealed s k"
  shows "inb s k"
proof -
  from assms(4) consider
      (a) i where "0 \<le> i" "i < nx s" "k = 0 * nx s + i"
    | (b) i where "0 \<le> i" "i < nx s" "k = (ny s - 1) * nx s + i"
    | (c) i where "0 \<le> i" "i < ny s" "k = i * nx s + 0"
    | (d) i where "0 \<le> i" "i < ny s" "k = i * nx s + (nx s - 1)"
    unfolding sealed_def by fastforce
  then show ?thesis
  proof cases
    case a
    with grid_index [of 0 "ny s" i "nx s"] assms show ?thesis by (simp add: inb_def)
  next
    case b
    with grid_index [of "ny s - 1" "ny s" i "nx s"] assms show ?thesis by (simp add: inb_def)
  next
    case c
    with grid_index [of i "ny s" 0 "nx s"] assms show ?thesis by (simp add: inb_def)
  next
    case d
    with grid_index [of i "ny s" "nx s - 1" "nx s"] assms show ?thesis by (simp add: inb_def)
  qed
qed

lemma setupNavFn_unfold:
  assumes "\<And>k. sealed s k \<Longrightarrow> inb s k"
  shows "setupNavFn s keepit =
     initCost (setup_reset s keepit) (fst (goal s) + snd (goal s) * nx s) 0
       \<bind> (\<lambda>s6. Some (s6\<lparr>nobs := int (length (filter (\<lambda>i. cost s6 i \<ge> COST_OBS)
                                                    [0 .. ns s - 1]))\<rparr>))"
proof -
  let ?s1 = "fold (reset_cell keepit) [0 .. ns s - 1] s"
  have sub: "\<And>k. sealed s k \<Longrightarrow> 0 \<le> k \<and> k < ns s"
    using assms by (simp add: inb_def)
  let ?A = "map (\<lambda>i. i) [0 .. nx s - 1]"
  let ?B = "map (\<lambda>i. (ny s - 1) * nx s + i) [0 .. nx s - 1]"
  let ?C = "map (\<lambda>i. i * nx s) [0 .. ny s - 1]"
  let ?D = "map (\<lambda>i. nx s - 1 + i * nx s) [0 .. ny s - 1]"
  have mem: "\<And>k. k \<in> set ?A \<or> k \<in> set ?B \<or> k \<in> set ?C \<or> k \<in> set ?D \<longleftrightarrow> sealed s k"
    unfolding mem_map_upto sealed_def by auto
  let ?c = "word_of_int COST_OBS :: costtype"
  let ?s2 = "?s1\<lparr>costarr := (\<lambda>k. if k \<in> set ?A then ?c else costarr ?s1 k)\<rparr>"
  let ?s3 = "?s2\<lparr>costarr := (\<lambda>k. if k \<in> set ?B then ?c else costarr ?s2 k)\<rparr>"
  let ?s4 = "?s3\<lparr>costarr := (\<lambda>k. if k \<in> set ?C then ?c else costarr ?s3 k)\<rparr>"
  let ?s5 = "?s4\<lparr>costarr := (\<lambda>k. if k \<in> set ?D then ?c else costarr ?s4 k)\<rparr>"
  have ns: "ns ?s1 = ns s" "ns ?s2 = ns s" "ns ?s3 = ns s" "ns ?s4 = ns s"
    by (simp_all add: fold_reset)
  have A: "foldM seal ?A ?s1 = Some ?s2"
  proof (rule foldM_seal, rule ballI)
    fix k assume "k \<in> set ?A"
    then have "sealed s k" using mem by blast
    then show "inb ?s1 k" using sub by (simp only: inb_def ns)
  qed
  have B: "foldM seal ?B ?s2 = Some ?s3"
  proof (rule foldM_seal, rule ballI)
    fix k assume "k \<in> set ?B"
    then have "sealed s k" using mem by blast
    then show "inb ?s2 k" using sub by (simp only: inb_def ns)
  qed
  have C: "foldM seal ?C ?s3 = Some ?s4"
  proof (rule foldM_seal, rule ballI)
    fix k assume "k \<in> set ?C"
    then have "sealed s k" using mem by blast
    then show "inb ?s3 k" using sub by (simp only: inb_def ns)
  qed
  have D: "foldM seal ?D ?s4 = Some ?s5"
  proof (rule foldM_seal, rule ballI)
    fix k assume "k \<in> set ?D"
    then have "sealed s k" using mem by blast
    then show "inb ?s4 k" using sub by (simp only: inb_def ns)
  qed
  have cst: "costarr ?s5 = (\<lambda>k. if sealed s k then ?c
                else if inb s k \<and> \<not> keepit then word_of_int COST_NEUTRAL else costarr s k)"
  proof
    fix k
    have "costarr ?s5 k = (if k \<in> set ?A \<or> k \<in> set ?B \<or> k \<in> set ?C \<or> k \<in> set ?D then ?c
                           else costarr ?s1 k)"
      by simp
    also have "\<dots> = (if sealed s k then ?c else costarr ?s1 k)"
      by (simp only: mem)
    also have "costarr ?s1 k
                 = (if inb s k \<and> \<not> keepit then word_of_int COST_NEUTRAL else costarr s k)"
      by (simp add: fold_reset inb_def)
    finally show "costarr ?s5 k = (if sealed s k then ?c
                else if inb s k \<and> \<not> keepit then word_of_int COST_NEUTRAL else costarr s k)" .
  qed
  define s5 where "s5 = ?s5"
  have cst5: "costarr s5 = (\<lambda>k. if sealed s k then ?c
                else if inb s k \<and> \<not> keepit then word_of_int COST_NEUTRAL else costarr s k)"
    using cst by (simp only: s5_def)
  have flds: "nx s5 = nx ?s1" "ny s5 = ny ?s1" "ns s5 = ns ?s1" "potarr s5 = potarr ?s1" "pending s5 = pending ?s1" "nobs s5 = nobs ?s1" "pb s5 = pb ?s1" "curP s5 = curP ?s1" "nextP s5 = nextP ?s1" "overP s5 = overP ?s1" "curPe s5 = curPe ?s1" "nextPe s5 = nextPe ?s1" "overPe s5 = overPe ?s1" "curT s5 = curT ?s1" "priInc s5 = priInc ?s1" "goal s5 = goal ?s1" "start s5 = start ?s1" "gradx s5 = gradx ?s1" "grady s5 = grady ?s1" "pathx s5 = pathx ?s1" "pathy s5 = pathy ?s1" "npath s5 = npath ?s1" "npathbuf s5 = npathbuf ?s1" "pathStep s5 = pathStep ?s1" "last_path_cost s5 = last_path_cost ?s1" "navfn.more s5 = navfn.more ?s1"
    by (simp_all add: s5_def)
  have R: "s5\<lparr>curT := real_of_int COST_OBS, curP := PB1, curPe := 0, nextP := PB2,
                nextPe := 0, overP := PB3, overPe := 0,
                pending := fold (\<lambda>i p. p(i := False)) [0 .. ns s - 1] (pending s5)\<rparr>
           = setup_reset s keepit"
    by (rule navfn.equality)
       (simp_all add: cst5 flds setup_reset_def fold_reset fold_clear inb_def fun_eq_iff)
  have D5: "foldM seal ?D ?s4 = Some s5" using D by (simp only: s5_def)
  show ?thesis
    unfolding setupNavFn_def Let_def by (simp only: A B C D5 R bind.bind_lunit)
qed

lemma setupNavFn_None:
  assumes "sealed s k" "\<not> inb s k"
  shows "setupNavFn s keepit = None"
proof -
  let ?s1 = "fold (reset_cell keepit) [0 .. ns s - 1] s"
  let ?A = "map (\<lambda>i. i) [0 .. nx s - 1]"
  let ?B = "map (\<lambda>i. (ny s - 1) * nx s + i) [0 .. nx s - 1]"
  let ?C = "map (\<lambda>i. i * nx s) [0 .. ny s - 1]"
  let ?D = "map (\<lambda>i. nx s - 1 + i * nx s) [0 .. ny s - 1]"
  have mem: "k \<in> set ?A \<or> k \<in> set ?B \<or> k \<in> set ?C \<or> k \<in> set ?D"
    using assms(1) unfolding mem_map_upto sealed_def by auto
  have keep: "\<And>ks t t'. foldM seal ks t = Some t' \<Longrightarrow> inb t' = inb t"
  proof -
    fix ks t t' assume a: "foldM seal ks t = Some t'"
    have "\<forall>j\<in>set ks. inb t j" using a foldM_seal_None [of ks t] by fastforce
    from foldM_seal [OF this] a show "inb t' = inb t" by (auto simp: inb_def fun_eq_iff)
  qed
  have in1: "inb ?s1 = inb s" by (simp add: fold_reset inb_def fun_eq_iff)
  have fail: "\<And>ks t. k \<in> set ks \<Longrightarrow> inb t = inb s \<Longrightarrow> foldM seal ks t = None"
    using assms(2) by (intro foldM_seal_None) auto
  note defs = setupNavFn_def Let_def bind.bind_lunit bind.bind_lzero
  show ?thesis
  proof (cases "foldM seal ?A ?s1")
    case None
    then show ?thesis by (simp only: defs)
  next
    case (Some s2)
    note A = this
    have in2: "inb s2 = inb s" using keep [OF A] in1 by simp
    show ?thesis
    proof (cases "foldM seal ?B s2")
      case None
      then show ?thesis by (simp only: defs A)
    next
      case (Some s3)
      note B = this
      have in3: "inb s3 = inb s" using keep [OF B] in2 by simp
      show ?thesis
      proof (cases "foldM seal ?C s3")
        case None
        then show ?thesis by (simp only: defs A B)
      next
        case (Some s4)
        note C = this
        have in4: "inb s4 = inb s" using keep [OF C] in3 by simp
        have "k \<notin> set ?A" using fail [OF _ in1] A by fastforce
        moreover have "k \<notin> set ?B" using fail [OF _ in2] B by fastforce
        moreover have "k \<notin> set ?C" using fail [OF _ in3] C by fastforce
        ultimately have "k \<in> set ?D" using mem by blast
        from fail [OF this in4] show ?thesis by (simp only: defs A B C)
      qed
    qed
  qed
qed

text \<open>What \<^verbatim>\<open>setupNavFn\<close> leaves when it returns.\<close>

lemma setupNavFn_Some:
  assumes "setupNavFn s keepit = Some s'"
  shows "inb s (fst (goal s) + snd (goal s) * nx s)"
    and "potarr s' = (\<lambda>k. if k = fst (goal s) + snd (goal s) * nx s then 0
                          else if inb s k then POT_HIGH else potarr s k)"
    and "costarr s' = costarr (setup_reset s keepit)"
    and "nx s' = nx s" "ny s' = ny s" "ns s' = ns s" "goal s' = goal s" "start s' = start s"
    and "pathStep s' = pathStep s" "curT s' = real_of_int COST_OBS"
proof -
  have ok: "\<And>k. sealed s k \<Longrightarrow> inb s k"
    using assms setupNavFn_None [of s _ keepit] by fastforce
  let ?g = "fst (goal s) + snd (goal s) * nx s"
  note u = setupNavFn_unfold [OF ok, of keepit]
  have inb_r: "inb (setup_reset s keepit) = inb s"
    by (simp add: setup_reset_def inb_def fun_eq_iff)
  show g: "inb s ?g"
    using assms u by (cases "inb s ?g") (simp_all add: initCost_def inb_r)
  obtain s6 where i: "initCost (setup_reset s keepit) ?g 0 = Some s6"
    and n: "s' = s6\<lparr>nobs := int (length (filter (\<lambda>i. cost s6 i \<ge> COST_OBS) [0 .. ns s - 1]))\<rparr>"
  proof -
    have "initCost (setup_reset s keepit) ?g 0
            \<bind> (\<lambda>s6. Some (s6\<lparr>nobs := int (length (filter (\<lambda>i. cost s6 i \<ge> COST_OBS)
                                                         [0 .. ns s - 1]))\<rparr>)) = Some s'"
      using assms by (simp only: u)
    then show ?thesis
      using that by (cases "initCost (setup_reset s keepit) ?g 0") auto
  qed
  have s6: "s6 = push_cur (push_cur (push_cur (push_cur
                ((setup_reset s keepit)\<lparr>potarr := (potarr (setup_reset s keepit))(?g := 0)\<rparr>)
                (?g + 1)) (?g - 1)) (?g - nx (setup_reset s keepit))) (?g + nx (setup_reset s keepit))"
    using i g by (simp add: initCost_def inb_r Let_def)
  have s': "potarr s' = potarr s6" "costarr s' = costarr s6" "nx s' = nx s6" "ny s' = ny s6"
    "ns s' = ns s6" "goal s' = goal s6" "start s' = start s6" "pathStep s' = pathStep s6"
    "curT s' = curT s6"
    by (simp_all add: n)
  show "potarr s' = (\<lambda>k. if k = ?g then 0 else if inb s k then POT_HIGH else potarr s k)"
    unfolding s' by (subst s6) (auto simp: setup_reset_def fun_eq_iff)
  show "costarr s' = costarr (setup_reset s keepit)" unfolding s' by (subst s6) simp
  show "nx s' = nx s" unfolding s' by (subst s6) (simp add: setup_reset_def)
  show "ny s' = ny s" unfolding s' by (subst s6) (simp add: setup_reset_def)
  show "ns s' = ns s" unfolding s' by (subst s6) (simp add: setup_reset_def)
  show "goal s' = goal s" unfolding s' by (subst s6) (simp add: setup_reset_def)
  show "start s' = start s" unfolding s' by (subst s6) (simp add: setup_reset_def)
  show "pathStep s' = pathStep s" unfolding s' by (subst s6) (simp add: setup_reset_def)
  show "curT s' = real_of_int COST_OBS" unfolding s' by (subst s6) (simp add: setup_reset_def)
qed

lemma setupNavFn_total:
  assumes "0 < nx s" "0 < ny s" "ns s = nx s * ny s" "inb s (fst (goal s) + snd (goal s) * nx s)"
  shows "\<exists>s'. setupNavFn s keepit = Some s'"
proof -
  have inb_r: "inb (setup_reset s keepit) = inb s"
    by (simp add: setup_reset_def inb_def fun_eq_iff)
  show ?thesis
    using assms(4) setupNavFn_unfold [of s keepit] sealed_inb [OF assms(1-3)]
    by (simp add: initCost_def inb_r Let_def)
qed

lemma ros_cell_cost:
  "uint (ros_cell allow_unknown c) =
     (if uint c < COST_OBS_ROS
      then max 0 (min (COST_OBS - 1) \<lfloor>real_of_int COST_NEUTRAL + COST_FACTOR * real_of_int (uint c)\<rfloor>)
      else if uint c = COST_UNKNOWN_ROS \<and> allow_unknown then COST_OBS - 1 else COST_OBS)"
proof (cases "uint c < COST_OBS_ROS")
  case True
  let ?x = "real_of_int COST_NEUTRAL + COST_FACTOR * real_of_int (uint c)"
  have nn: "0 \<le> real_of_int (uint c)" by (simp only: of_int_0_le_iff uint_ge_0)
  have x: "50 \<le> ?x" using nn by (simp add: COST_NEUTRAL_def COST_FACTOR_def)
  then have t: "trunc ?x = \<lfloor>?x\<rfloor>" by (simp add: trunc_def)
  have f: "50 \<le> \<lfloor>?x\<rfloor>" using x by (subst le_floor_iff) simp
  let ?v2 = "if \<lfloor>?x\<rfloor> \<ge> COST_OBS then COST_OBS - 1 else \<lfloor>?x\<rfloor>"
  have b: "50 \<le> ?v2" "?v2 \<le> 253" using f by (auto simp: COST_OBS_def)
  then have u: "uint (word_of_int ?v2 :: costtype) = ?v2"
    by (simp add: uint_word_of_int)
  have m: "max 0 (min (COST_OBS - 1) \<lfloor>?x\<rfloor>) = ?v2" using f by (auto simp: COST_OBS_def)
  show ?thesis
    using True by (simp only: ros_cell_def Let_def t u m if_True)
next
  case False
  then show ?thesis
    by (simp add: ros_cell_def Let_def COST_OBS_def COST_UNKNOWN_ROS_def)
qed

lemma plan5_fields [simp]:
  "nx plan5 = 5" "ny plan5 = 5" "ns plan5 = 25" "goal plan5 = (2, 2)" "start plan5 = (1, 1)"
  "pending plan5 = (\<lambda>_. False)" "curPe plan5 = 0" "nextPe plan5 = 0" "overPe plan5 = 0"
  "curP plan5 = PB1" "nextP plan5 = PB2" "overP plan5 = PB3" "pathStep plan5 = 1 / 2"
  by (simp_all add: plan5_def planner_def setStart_def setGoal_def setCostmap_def NavFn_def
      setNavArr_def
      mem0_def)

lemma plan5_cost: "0 \<le> k \<Longrightarrow> k < 25 \<Longrightarrow> cost plan5 k = 50"
proof -
  assume k: "0 \<le> k" "k < 25"
  have "costarr plan5 k = costarr (setCostmap (NavFn mem0 5 5) (\<lambda>_. 0) True False) k"
    by (simp add: plan5_def planner_def setStart_def setGoal_def)
  also have "\<dots> = ros_cell False 0"
    using k by (intro setCostmap_ros) (simp_all add: NavFn_def setNavArr_def)
  finally show ?thesis
    by (simp add: cost_def ros_cell_cost COST_OBS_ROS_def COST_OBS_def COST_NEUTRAL_def
        COST_FACTOR_def)
qed

lemma plan5_unsealed:
  "k \<in> {6, 7, 8, 11, 12, 13, 16, 17, 18} \<Longrightarrow> \<not> sealed plan5 k"
  unfolding sealed_def plan5_fields by (elim insertE emptyE; simp; presburger)

lemma st5: "setupNavFn plan5 True = Some st5"
proof -
  have "\<exists>s'. setupNavFn plan5 True = Some s'"
    by (rule setupNavFn_total) (simp_all add: inb_def)
  then show ?thesis by (auto simp: st5_def ready_def plan5_def)
qed

lemma st5_fields [simp]:
  "nx st5 = 5" "ny st5 = 5" "ns st5 = 25" "goal st5 = (2, 2)" "start st5 = (1, 1)"
  "pathStep st5 = 1 / 2" "curT st5 = 254"
  using setupNavFn_Some [OF st5] by (simp_all add: COST_OBS_def)

lemma st5_potarr: "0 \<le> k \<Longrightarrow> k < 25 \<Longrightarrow> potarr st5 k = (if k = 12 then 0 else POT_HIGH)"
  using setupNavFn_Some(2) [OF st5] by (simp add: inb_def)

lemma st5_cost:
  "k \<in> {6, 7, 8, 11, 12, 13, 16, 17, 18} \<Longrightarrow> cost st5 k = 50"
proof -
  assume k: "k \<in> {6, 7, 8, 11, 12, 13, 16, 17, 18}"
  then have r: "0 \<le> k" "k < 25" by auto
  have "costarr st5 k = costarr plan5 k"
    using setupNavFn_Some(3) [OF st5] plan5_unsealed [OF k] by (simp add: setup_reset_def)
  then show ?thesis using plan5_cost [OF r] by (simp add: cost_def)
qed

subsection \<open>The candidate potential of the update rule\<close>

text \<open>
  Claim C1. For a cell \<open>n\<close> whose four neighbours are cells of the grid and whose cost is
  below \<^verbatim>\<open>COST_OBS\<close>, \<^verbatim>\<open>updateCell\<close> computes the candidate potential from the two lowest
  neighbours as the specification says: with \<open>ta\<close> the smaller and \<open>tc\<close> the larger of
  \<open>min u d\<close> and \<open>min l r\<close>, \<open>hf\<close> the cost of \<open>n\<close> and \<open>dc = tc - ta\<close>, the candidate is
  \<open>ta + hf\<close> when \<open>dc \<ge> hf\<close> and \<open>ta + hf * v\<close> otherwise, for \<open>d = dc / hf\<close> and
  \<open>v = -0.2301 d\<^sup>2 + 0.5307 d + 0.7040\<close>. The function returns, and the potential it
  leaves at \<open>n\<close> is the candidate when that is below the old potential.
\<close>

theorem updateCell_candidate:
  assumes "inb s (n - 1)" "inb s (n + 1)" "inb s (n - nx s)" "inb s (n + nx s)"
    and "cost s n < COST_OBS"
  shows "updateCell_pot l r u d hf = spec_candidate l r u d hf \<and>
    (\<exists>s'. updateCell s n = Some s' \<and>
       potarr s' n =
         (let cand = spec_candidate (potarr s (n - 1)) (potarr s (n + 1)) (potarr s (n - nx s))
                       (potarr s (n + nx s)) (real_of_int (cost s n))
          in if cand < potarr s n then cand else potarr s n))"
proof -
  obtain s' where s': "updateCell s n = Some s'"
    using updateCell_Some [OF assms(1-4)] by blast
  show ?thesis
    using assms(5) by (simp add: s' updateCell_potarr [OF s'] updateCell_pot_spec Let_def)
qed

theorem updateCell_candidate_witness:
  "inb st5 (13 - 1) \<and> inb st5 (13 + 1) \<and> inb st5 (13 - nx st5) \<and> inb st5 (13 + nx st5) \<and>
   cost st5 13 < COST_OBS \<and>
   (\<exists>s'. updateCell st5 13 = Some s' \<and> potarr s' 13 = 50)"
proof -
  have h: "inb st5 (13 - 1)" "inb st5 (13 + 1)" "inb st5 (13 - nx st5)" "inb st5 (13 + nx st5)"
    by (simp_all add: inb_def)
  have c: "cost st5 13 < COST_OBS" by (simp add: st5_cost COST_OBS_def)
  have "spec_candidate (potarr st5 (13 - 1)) (potarr st5 (13 + 1)) (potarr st5 (13 - nx st5))
          (potarr st5 (13 + nx st5)) (real_of_int (cost st5 13)) = 50"
    by (simp add: st5_potarr st5_cost spec_candidate_def POT_HIGH_def)
  with updateCell_candidate [OF h c] h c show ?thesis
    by (simp add: st5_potarr POT_HIGH_def)
qed

subsection \<open>Updates never raise a potential\<close>

lemma updateCell_mono:
  assumes "updateCell s n = Some s'"
  shows "potarr s' k \<le> potarr s k \<and> (potarr s' k \<noteq> potarr s k \<longrightarrow> k = n)"
  by (simp add: updateCell_potarr [OF assms])

lemma updateCellAstar_mono:
  assumes "updateCellAstar s n = Some s'"
  shows "potarr s' k \<le> potarr s k \<and> (potarr s' k \<noteq> potarr s k \<longrightarrow> k = n)"
  by (simp add: updateCellAstar_potarr [OF assms])

lemma apply_update_mono:
  "apply_update u s = Some s' \<Longrightarrow> potarr s' k \<le> potarr s k"
  by (cases u) (simp_all add: updateCell_mono updateCellAstar_mono)

lemma updates_mono:
  "updates us s = Some s' \<Longrightarrow> potarr s' k \<le> potarr s k"
proof (induction us arbitrary: s)
  case Nil
  then show ?case by (simp add: updates_def)
next
  case (Cons u us)
  from Cons.prems obtain s1 where 1: "apply_update u s = Some s1" and 2: "updates us s1 = Some s'"
    by (auto simp: updates_def split: option.splits)
  from apply_update_mono [OF 1] Cons.IH [OF 2] show ?case by (rule order_trans [rotated])
qed

lemma updateCellAstar_Some:
  assumes "inb s (n - 1)" "inb s (n + 1)" "inb s (n - nx s)" "inb s (n + nx s)" "nx s \<noteq> 0"
  shows "\<exists>s'. updateCellAstar s n = Some s'"
proof -
  have n: "inb s n" using assms by (auto simp: inb_def)
  show ?thesis
    using assms n by (simp add: updateCellAstar_def pot_at_def cost_at_def Let_def)
qed

lemma updateCell_frame:
  assumes "updateCell s n = Some s'"
  shows "ns s' = ns s" "nx s' = nx s" "ny s' = ny s" "costarr s' = costarr s"
    "goal s' = goal s" "start s' = start s" "curT s' = curT s" "pathStep s' = pathStep s"
  using assms
  by (auto simp: updateCell_def pot_at_def cost_at_def Let_def if_distrib [of ns]
      if_distrib [of nx] if_distrib [of ny] if_distrib [of costarr] if_distrib [of goal]
      if_distrib [of start] if_distrib [of curT] if_distrib [of pathStep]
      split: if_splits cong: if_cong)

lemma updateCellAstar_frame:
  assumes "updateCellAstar s n = Some s'"
  shows "ns s' = ns s" "nx s' = nx s" "ny s' = ny s" "costarr s' = costarr s"
    "goal s' = goal s" "start s' = start s" "curT s' = curT s" "pathStep s' = pathStep s"
  using assms
  by (auto simp: updateCellAstar_def pot_at_def cost_at_def Let_def if_distrib [of ns]
      if_distrib [of nx] if_distrib [of ny] if_distrib [of costarr] if_distrib [of goal]
      if_distrib [of start] if_distrib [of curT] if_distrib [of pathStep]
      split: if_splits cong: if_cong)

text \<open>
  Claim C2. A call of \<^verbatim>\<open>updateCell\<close> or of \<^verbatim>\<open>updateCellAstar\<close> at \<open>n\<close> never increases a
  potential: only the potential of \<open>n\<close> can change, and when it does the new value is
  strictly below the old one. Hence along any sequence of updates the successive values
  of every cell's potential do not increase.
\<close>

theorem potential_non_increasing:
  "(updateCell s n = Some sd \<longrightarrow>
      potarr sd k \<le> potarr s k \<and>
      (potarr sd k \<noteq> potarr s k \<longrightarrow> k = n \<and> potarr sd n < potarr s n)) \<and>
   (updateCellAstar s n = Some sa \<longrightarrow>
      potarr sa k \<le> potarr s k \<and>
      (potarr sa k \<noteq> potarr s k \<longrightarrow> k = n \<and> potarr sa n < potarr s n)) \<and>
   (updates us s = Some s1 \<and> updates vs s1 = Some s2 \<longrightarrow> potarr s2 k \<le> potarr s1 k)"
  using updateCell_mono [of s n sd k] updateCellAstar_mono [of s n sa k]
    updates_mono [of vs s1 s2 k]
  by auto

lemma st5_update13: "\<exists>s'. updateCell st5 13 = Some s' \<and> potarr s' 13 = 50"
proof -
  obtain s' where s': "updateCell st5 13 = Some s'"
    using updateCell_Some [of st5 13] by (auto simp: inb_def)
  have "updateCell_pot (potarr st5 (13 - 1)) (potarr st5 (13 + 1)) (potarr st5 (13 - nx st5))
          (potarr st5 (13 + nx st5)) (real_of_int (cost st5 13)) = 50"
    by (simp add: st5_potarr st5_cost updateCell_pot_def POT_HIGH_def)
  then show ?thesis
    by (simp add: s' updateCell_potarr [OF s'] st5_potarr st5_cost POT_HIGH_def COST_OBS_def)
qed

lemma st5_updateA13: "\<exists>s'. updateCellAstar st5 13 = Some s' \<and> potarr s' 13 = 50"
proof -
  obtain s' where s': "updateCellAstar st5 13 = Some s'"
    using updateCellAstar_Some [of st5 13] by (auto simp: inb_def)
  have "updateCellAstar_pot (potarr st5 (13 - 1)) (potarr st5 (13 + 1)) (potarr st5 (13 - nx st5))
          (potarr st5 (13 + nx st5)) (real_of_int (cost st5 13)) = 50"
    by (simp add: st5_potarr st5_cost updateCellAstar_pot_def POT_HIGH_def)
  then show ?thesis
    by (simp add: s' updateCellAstar_potarr [OF s'] st5_potarr st5_cost POT_HIGH_def
        COST_OBS_def)
qed

theorem potential_non_increasing_witness:
  "\<exists>sd sa. updateCell st5 13 = Some sd \<and> potarr sd 13 < potarr st5 13 \<and>
     updateCellAstar st5 13 = Some sa \<and> potarr sa 13 < potarr st5 13 \<and>
     updates [] st5 = Some st5 \<and> updates [Dijkstra 13] st5 = Some sd \<and>
     potarr sd 13 \<le> potarr st5 13"
proof -
  obtain sd where sd: "updateCell st5 13 = Some sd" and pd: "potarr sd 13 = 50"
    using st5_update13 by blast
  obtain sa where sa: "updateCellAstar st5 13 = Some sa" and pa: "potarr sa 13 = 50"
    using st5_updateA13 by blast
  have u0: "updates [] st5 = Some st5" and u1: "updates [Dijkstra 13] st5 = Some sd"
    by (simp_all add: updates_def sd)
  have ne: "potarr sd 13 \<noteq> potarr st5 13" "potarr sa 13 \<noteq> potarr st5 13"
    by (simp_all add: pd pa st5_potarr POT_HIGH_def)
  from potential_non_increasing [of st5 13 sd 13 sa "[]" st5 "[Dijkstra 13]" sd] sd sa u0 u1 ne
  show ?thesis by auto
qed

subsection \<open>The cost translator\<close>

text \<open>
  Claim C4. In ROS mode \<^verbatim>\<open>setCostmap\<close> leaves in every cell of the grid, for the incoming
  value \<open>v\<close> of the cell: \<^verbatim>\<open>COST_NEUTRAL + COST_FACTOR * v\<close> (converted to \<^verbatim>\<open>int\<close>) clamped
  into \<open>[0, COST_OBS - 1]\<close> when \<open>v < COST_OBS_ROS\<close>; \<open>COST_OBS - 1\<close> when \<open>v\<close> is 255 and
  \<open>allow_unknown\<close> holds; \<^verbatim>\<open>COST_OBS\<close> in every other case.
\<close>

theorem setCostmap_ros_cost:
  assumes "0 \<le> k" "k < nx s * ny s" "0 < nx s"
  shows "cost (setCostmap s cmap True allow_unknown) k =
     (let v = uint (cmap k)
      in if v < COST_OBS_ROS
         then max 0 (min (COST_OBS - 1)
                       \<lfloor>real_of_int COST_NEUTRAL + COST_FACTOR * real_of_int v\<rfloor>)
         else if v = COST_UNKNOWN_ROS \<and> allow_unknown then COST_OBS - 1
         else COST_OBS)"
  unfolding cost_def setCostmap_ros [OF assms] Let_def by (rule ros_cell_cost)

theorem setCostmap_ros_cost_witness:
  "(0::int) \<le> 12 \<and> 12 < nx (NavFn mem0 5 5) * ny (NavFn mem0 5 5) \<and> 0 < nx (NavFn mem0 5 5) \<and>
   cost (setCostmap (NavFn mem0 5 5) (\<lambda>k. if k = 12 then 100 else 255) True True) 12 = 130 \<and>
   cost (setCostmap (NavFn mem0 5 5) (\<lambda>k. if k = 12 then 254 else 255) True True) 12 = 254 \<and>
   cost (setCostmap (NavFn mem0 5 5) (\<lambda>k. if k = 12 then 100 else 255) True True) 13 = 253 \<and>
   cost (setCostmap (NavFn mem0 5 5) (\<lambda>k. if k = 12 then 100 else 255) True False) 13 = 254"
proof -
  have n: "nx (NavFn mem0 5 5) = 5" "ny (NavFn mem0 5 5) = 5"
    by (simp_all add: NavFn_def setNavArr_def)
  have h: "(0::int) \<le> 12" "12 < nx (NavFn mem0 5 5) * ny (NavFn mem0 5 5)"
    "(0::int) \<le> 13" "13 < nx (NavFn mem0 5 5) * ny (NavFn mem0 5 5)" "0 < nx (NavFn mem0 5 5)"
    by (simp_all add: n)
  note c = COST_OBS_ROS_def COST_OBS_def COST_NEUTRAL_def COST_FACTOR_def COST_UNKNOWN_ROS_def
  from setCostmap_ros_cost [OF h(1,2,5), of "\<lambda>k. if k = 12 then 100 else 255" True]
    setCostmap_ros_cost [OF h(1,2,5), of "\<lambda>k. if k = 12 then 254 else 255" True]
    setCostmap_ros_cost [OF h(3,4,5), of "\<lambda>k. if k = 12 then 100 else 255" True]
    setCostmap_ros_cost [OF h(3,4,5), of "\<lambda>k. if k = 12 then 100 else 255" False]
  show ?thesis by (simp add: n c)
qed

subsection \<open>The state after the set-up\<close>

text \<open>
  Claim C5. After a call of \<^verbatim>\<open>setupNavFn\<close>, every border cell (row 0, row \<open>ny - 1\<close>,
  column 0, column \<open>nx - 1\<close>) has the cost \<^verbatim>\<open>COST_OBS\<close>, and every cell has the potential
  \<^verbatim>\<open>POT_HIGH\<close>, except the goal cell, whose potential is 0. The call returns when the
  grid is not empty and the goal is a cell of it.
\<close>

theorem setupNavFn_post:
  "(setupNavFn s keepit = Some s' \<longrightarrow>
      (\<forall>x y. 0 \<le> x \<and> x < nx s \<and> 0 \<le> y \<and> y < ny s \<and>
             (y = 0 \<or> y = ny s - 1 \<or> x = 0 \<or> x = nx s - 1)
             \<longrightarrow> cost s' (y * nx s + x) = COST_OBS) \<and>
      (\<forall>k. inb s k \<longrightarrow>
           potarr s' k = (if k = fst (goal s) + snd (goal s) * nx s then 0 else POT_HIGH))) \<and>
   (0 < nx s \<and> 0 < ny s \<and> ns s = nx s * ny s \<and> inb s (fst (goal s) + snd (goal s) * nx s)
      \<longrightarrow> (\<exists>t. setupNavFn s keepit = Some t))"
proof (intro conjI impI allI)
  fix x y
  assume s': "setupNavFn s keepit = Some s'"
    and b: "0 \<le> x \<and> x < nx s \<and> 0 \<le> y \<and> y < ny s \<and>
            (y = 0 \<or> y = ny s - 1 \<or> x = 0 \<or> x = nx s - 1)"
  from b consider "y = 0" | "y = ny s - 1" | "x = 0" | "x = nx s - 1" by blast
  then have "sealed s (y * nx s + x)"
  proof cases
    case 1
    then have "0 \<le> x \<and> x < nx s \<and> (y * nx s + x = x \<or> y * nx s + x = (ny s - 1) * nx s + x)"
      using b by simp
    then show ?thesis unfolding sealed_def by blast
  next
    case 2
    then have "0 \<le> x \<and> x < nx s \<and> (y * nx s + x = x \<or> y * nx s + x = (ny s - 1) * nx s + x)"
      using b by simp
    then show ?thesis unfolding sealed_def by blast
  next
    case 3
    then have "0 \<le> y \<and> y < ny s \<and> (y * nx s + x = y * nx s \<or> y * nx s + x = nx s - 1 + y * nx s)"
      using b by simp
    then show ?thesis unfolding sealed_def by blast
  next
    case 4
    then have "0 \<le> y \<and> y < ny s \<and> (y * nx s + x = y * nx s \<or> y * nx s + x = nx s - 1 + y * nx s)"
      using b by simp
    then show ?thesis unfolding sealed_def by blast
  qed
  then show "cost s' (y * nx s + x) = COST_OBS"
    by (simp add: cost_def setupNavFn_Some(3) [OF s'] setup_reset_def COST_OBS_def)
next
  fix k
  assume s': "setupNavFn s keepit = Some s'" and k: "inb s k"
  show "potarr s' k = (if k = fst (goal s) + snd (goal s) * nx s then 0 else POT_HIGH)"
    using k by (simp add: setupNavFn_Some(2) [OF s'])
next
  assume "0 < nx s \<and> 0 < ny s \<and> ns s = nx s * ny s \<and> inb s (fst (goal s) + snd (goal s) * nx s)"
  then show "\<exists>t. setupNavFn s keepit = Some t"
    using setupNavFn_total [of s keepit] by blast
qed

theorem setupNavFn_post_witness:
  "setupNavFn plan5 True = Some st5 \<and> cost st5 (0 * nx plan5 + 3) = COST_OBS \<and>
   cost st5 (2 * nx plan5 + 4) = COST_OBS \<and> potarr st5 12 = 0 \<and> potarr st5 13 = POT_HIGH \<and>
   0 < nx plan5 \<and> 0 < ny plan5 \<and> ns plan5 = nx plan5 * ny plan5 \<and>
   inb plan5 (fst (goal plan5) + snd (goal plan5) * nx plan5)"
proof -
  note p = setupNavFn_post [of plan5 True st5, THEN conjunct1, rule_format, OF st5]
  have c: "cost st5 (0 * nx plan5 + 3) = COST_OBS" "cost st5 (2 * nx plan5 + 4) = COST_OBS"
    by (rule p [THEN conjunct1, rule_format]; simp)+
  have q: "potarr st5 12 = 0" "potarr st5 13 = POT_HIGH"
    using p [THEN conjunct2, rule_format, of 12] p [THEN conjunct2, rule_format, of 13]
    by (simp_all add: inb_def)
  show ?thesis using c q st5 by (simp add: inb_def)
qed

subsection \<open>Pushes\<close>

text \<open>
  Claim C6. For each of the three priority buffers, a push of \<open>n\<close> stores \<open>n\<close> at the end
  of the buffer, counts it and sets \<open>pending n\<close> if and only if \<open>0 \<le> n < ns\<close>, \<open>n\<close> is not
  pending, the cost of \<open>n\<close> is below \<^verbatim>\<open>COST_OBS\<close> and the count of that buffer is below
  \<^verbatim>\<open>PRIORITYBUFSIZE\<close>; otherwise, a full buffer included, the push changes nothing.
\<close>

theorem push_admission:
  "push_cur s n =
     (if admits s (curPe s) n
      then s\<lparr>pb := (pb s)(curP s := (pb s (curP s))(curPe s := n)), curPe := curPe s + 1,
              pending := (pending s)(n := True)\<rparr>
      else s) \<and>
   push_next s n =
     (if admits s (nextPe s) n
      then s\<lparr>pb := (pb s)(nextP s := (pb s (nextP s))(nextPe s := n)), nextPe := nextPe s + 1,
              pending := (pending s)(n := True)\<rparr>
      else s) \<and>
   push_over s n =
     (if admits s (overPe s) n
      then s\<lparr>pb := (pb s)(overP s := (pb s (overP s))(overPe s := n)), overPe := overPe s + 1,
              pending := (pending s)(n := True)\<rparr>
      else s) \<and>
   (push_cur s n \<noteq> s \<longleftrightarrow> admits s (curPe s) n) \<and>
   (push_next s n \<noteq> s \<longleftrightarrow> admits s (nextPe s) n) \<and>
   (push_over s n \<noteq> s \<longleftrightarrow> admits s (overPe s) n)"
proof -
  have c: "admits s (curPe s) n \<Longrightarrow> curPe (push_cur s n) \<noteq> curPe s"
    by (simp add: push_cur_def admits_def)
  have x: "admits s (nextPe s) n \<Longrightarrow> nextPe (push_next s n) \<noteq> nextPe s"
    by (simp add: push_next_def admits_def)
  have v: "admits s (overPe s) n \<Longrightarrow> overPe (push_over s n) \<noteq> overPe s"
    by (simp add: push_over_def admits_def)
  have 1: "push_cur s n \<noteq> s \<longleftrightarrow> admits s (curPe s) n"
  proof
    assume "push_cur s n \<noteq> s"
    then show "admits s (curPe s) n" by (simp add: push_cur_def admits_def split: if_splits)
  next
    assume "admits s (curPe s) n"
    from c [OF this] show "push_cur s n \<noteq> s" by auto
  qed
  have 2: "push_next s n \<noteq> s \<longleftrightarrow> admits s (nextPe s) n"
  proof
    assume "push_next s n \<noteq> s"
    then show "admits s (nextPe s) n" by (simp add: push_next_def admits_def split: if_splits)
  next
    assume "admits s (nextPe s) n"
    from x [OF this] show "push_next s n \<noteq> s" by auto
  qed
  have 3: "push_over s n \<noteq> s \<longleftrightarrow> admits s (overPe s) n"
  proof
    assume "push_over s n \<noteq> s"
    then show "admits s (overPe s) n" by (simp add: push_over_def admits_def split: if_splits)
  next
    assume "admits s (overPe s) n"
    from v [OF this] show "push_over s n \<noteq> s" by auto
  qed
  show ?thesis
    unfolding 1 2 3 by (simp add: push_cur_def push_next_def push_over_def admits_def)
qed

theorem push_admission_witness:
  "admits plan5 (nextPe plan5) 12 \<and> pending (push_next plan5 12) 12 \<and>
   pb (push_next plan5 12) PB2 0 = 12 \<and> nextPe (push_next plan5 12) = 1 \<and>
   \<not> admits (plan5\<lparr>nextPe := PRIORITYBUFSIZE\<rparr>) (nextPe (plan5\<lparr>nextPe := PRIORITYBUFSIZE\<rparr>)) 12 \<and>
   push_next (plan5\<lparr>nextPe := PRIORITYBUFSIZE\<rparr>) 12 = plan5\<lparr>nextPe := PRIORITYBUFSIZE\<rparr>"
proof -
  have a: "admits plan5 (nextPe plan5) 12"
    by (simp add: admits_def plan5_cost COST_OBS_def PRIORITYBUFSIZE_def)
  have b: "\<not> admits (plan5\<lparr>nextPe := PRIORITYBUFSIZE\<rparr>) (nextPe (plan5\<lparr>nextPe := PRIORITYBUFSIZE\<rparr>)) 12"
    by (simp add: admits_def)
  from push_admission [of plan5 12] push_admission [of "plan5\<lparr>nextPe := PRIORITYBUFSIZE\<rparr>" 12] a b
  show ?thesis by simp
qed

subsection \<open>The sample planners\<close>

lemma planner_fields [simp]:
  "nx (planner cmap g st) = 5" "ny (planner cmap g st) = 5" "ns (planner cmap g st) = 25"
  "goal (planner cmap g st) = g" "start (planner cmap g st) = st"
  "pending (planner cmap g st) = (\<lambda>_. False)" "pathStep (planner cmap g st) = 1 / 2"
  "pb (planner cmap g st) = (\<lambda>_ _. 0)"
  by (simp_all add: planner_def setStart_def setGoal_def setCostmap_def NavFn_def
      setNavArr_def mem0_def)

lemma planner_cost:
  "0 \<le> k \<Longrightarrow> k < 25 \<Longrightarrow> cost (planner cmap g st) k = uint (ros_cell False (cmap k))"
proof -
  assume k: "0 \<le> k" "k < 25"
  have "costarr (planner cmap g st) k = costarr (setCostmap (NavFn mem0 5 5) cmap True False) k"
    by (simp add: planner_def setStart_def setGoal_def)
  also have "\<dots> = ros_cell False (cmap k)"
    using k by (intro setCostmap_ros) (simp_all add: NavFn_def setNavArr_def)
  finally show ?thesis by (simp add: cost_def)
qed

lemma planner_sealed:
  "sealed (planner cmap g st) k \<longleftrightarrow>
     k \<in> {0, 1, 2, 3, 4, 5, 9, 10, 14, 15, 19, 20, 21, 22, 23, 24}"
  unfolding sealed_def planner_fields by simp presburger

lemma ready:
  assumes "0 \<le> fst g + snd g * 5" "fst g + snd g * 5 < 25"
  shows "setupNavFn (planner cmap g st) True = Some (ready cmap g st)"
proof -
  have "\<exists>s'. setupNavFn (planner cmap g st) True = Some s'"
    using assms by (intro setupNavFn_total) (simp_all add: inb_def)
  then show ?thesis by (auto simp: ready_def)
qed

text \<open>The state that \<^verbatim>\<open>setupNavFn\<close> returns, up to the count of obstacle cells.\<close>

lemma setupNavFn_eq:
  assumes "setupNavFn s keepit = Some s'"
  shows "\<exists>m. s' =
     (push_cur (push_cur (push_cur (push_cur
        ((setup_reset s keepit)
           \<lparr>potarr := (potarr (setup_reset s keepit))(fst (goal s) + snd (goal s) * nx s := 0)\<rparr>)
        (fst (goal s) + snd (goal s) * nx s + 1)) (fst (goal s) + snd (goal s) * nx s - 1))
        (fst (goal s) + snd (goal s) * nx s - nx s)) (fst (goal s) + snd (goal s) * nx s + nx s))
     \<lparr>nobs := m\<rparr>"
proof -
  have ok: "\<And>k. sealed s k \<Longrightarrow> inb s k"
    using assms setupNavFn_None [of s _ keepit] by fastforce
  let ?g = "fst (goal s) + snd (goal s) * nx s"
  note u = setupNavFn_unfold [OF ok, of keepit]
  have inb_r: "inb (setup_reset s keepit) = inb s"
    by (simp add: setup_reset_def inb_def fun_eq_iff)
  have nx_r: "nx (setup_reset s keepit) = nx s" by (simp add: setup_reset_def)
  have g: "inb s ?g" by (rule setupNavFn_Some(1) [OF assms])
  have "initCost (setup_reset s keepit) ?g 0
          \<bind> (\<lambda>s6. Some (s6\<lparr>nobs := int (length (filter (\<lambda>i. cost s6 i \<ge> COST_OBS)
                                                       [0 .. ns s - 1]))\<rparr>)) = Some s'"
    using assms by (simp only: u)
  then show ?thesis
    using g by (auto simp: initCost_def inb_r nx_r Let_def)
qed

lemma setup_reset_cost:
  "cost (setup_reset s True) k = (if sealed s k then COST_OBS else cost s k)"
  by (simp add: cost_def setup_reset_def COST_OBS_def)

lemma ready_fields [simp]:
  assumes "0 \<le> fst g + snd g * 5" "fst g + snd g * 5 < 25"
  shows "nx (ready cmap g st) = 5" "ny (ready cmap g st) = 5" "ns (ready cmap g st) = 25"
    "goal (ready cmap g st) = g" "start (ready cmap g st) = st"
    "pathStep (ready cmap g st) = 1 / 2" "curT (ready cmap g st) = 254"
  using setupNavFn_Some [OF ready [OF assms, of cmap st]] by (simp_all add: COST_OBS_def)

lemma ready_potarr:
  assumes "0 \<le> fst g + snd g * 5" "fst g + snd g * 5 < 25" "0 \<le> k" "k < 25"
  shows "potarr (ready cmap g st) k = (if k = fst g + snd g * 5 then 0 else POT_HIGH)"
  using setupNavFn_Some(2) [OF ready [OF assms(1,2), of cmap st]] assms(3,4)
  by (simp add: inb_def)

lemma ready_cost:
  assumes "0 \<le> fst g + snd g * 5" "fst g + snd g * 5 < 25" "0 \<le> k" "k < 25"
  shows "cost (ready cmap g st) k =
     (if k \<in> {6, 7, 8, 11, 12, 13, 16, 17, 18} then uint (ros_cell False (cmap k)) else 254)"
proof -
  have "cost (ready cmap g st) k = cost (setup_reset (planner cmap g st) True) k"
    using setupNavFn_Some(3) [OF ready [OF assms(1,2), of cmap st]] by (simp add: cost_def)
  also have "\<dots> = (if sealed (planner cmap g st) k then 254 else uint (ros_cell False (cmap k)))"
    using assms(3,4) by (simp add: setup_reset_cost planner_cost COST_OBS_def)
  also have "sealed (planner cmap g st) k \<longleftrightarrow> k \<notin> {6, 7, 8, 11, 12, 13, 16, 17, 18}"
    unfolding planner_sealed using assms(3,4) by simp presburger
  finally show ?thesis by simp
qed

lemma ros_cell_free: "uint (ros_cell a 0) = 50"
  by (simp add: ros_cell_cost COST_OBS_ROS_def COST_OBS_def COST_NEUTRAL_def COST_FACTOR_def)

lemma ros_cell_lethal: "uint (ros_cell False 254) = 254"
  by (simp add: ros_cell_cost COST_OBS_ROS_def COST_OBS_def COST_UNKNOWN_ROS_def)

subsection \<open>The obstacle branch of the gradient\<close>

text \<open>
  What the obstacle branch leaves in \<^verbatim>\<open>dy\<close> when the upper neighbour is not reachable:
  it tests the fixed cell \<open>nx + 1\<close>, not the lower neighbour \<open>n + nx\<close>.
\<close>

lemma gradCell_d_obstacle:
  assumes "gradCell_d s n = Some (gx, gy)" "potarr s n \<ge> POT_HIGH"
    "\<not> potarr s (n - nx s) < POT_HIGH"
  shows "gy = (if potarr s (nx s + 1) < POT_HIGH then real_of_int COST_OBS else 0)"
  using assms
  by (auto simp: gradCell_d_def pot_at_def bind_eq_Some_conv split: if_splits)

text \<open>
  Claim C8, which the code does not meet. The planner of free space with the goal at
  (2, 3), right after the set-up: cell 12 is at \<^verbatim>\<open>POT_HIGH\<close>, its upper neighbour 7 is not
  reachable and its lower neighbour 17, the goal, is. The claim asks for
  \<open>dy = COST_OBS\<close>; \<^verbatim>\<open>gradCell(12)\<close> tests cell \<open>nx + 1 = 6\<close> instead of cell 17, leaves
  \<open>dy = 0\<close>, stores no gradient and returns 0.
\<close>

theorem gradCell_obstacle_dy_wrong:
  "potarr (ready (\<lambda>_. 0) (2, 3) (1, 1)) 12 \<ge> POT_HIGH \<and>
   \<not> potarr (ready (\<lambda>_. 0) (2, 3) (1, 1)) (12 - nx (ready (\<lambda>_. 0) (2, 3) (1, 1))) < POT_HIGH \<and>
   potarr (ready (\<lambda>_. 0) (2, 3) (1, 1)) (12 + nx (ready (\<lambda>_. 0) (2, 3) (1, 1))) < POT_HIGH \<and>
   gradCell_d (ready (\<lambda>_. 0) (2, 3) (1, 1)) 12 = Some (0, 0) \<and>
   gradCell (ready (\<lambda>_. 0) (2, 3) (1, 1)) 12 = Some (0, ready (\<lambda>_. 0) (2, 3) (1, 1))"
proof -
  let ?s = "ready (\<lambda>_. 0) (2, 3) (1, 1)"
  have g: "(0::int) \<le> fst (2, 3) + snd (2, 3) * 5" "fst (2::int, 3::int) + snd (2::int, 3::int) * 5 < 25"
    by simp_all
  note f = ready_fields [OF g, of "\<lambda>_. 0" "(1, 1)"]
  have p: "\<And>k. 0 \<le> k \<Longrightarrow> k < 25 \<Longrightarrow> potarr ?s k = (if k = 17 then 0 else POT_HIGH)"
    using ready_potarr [OF g, of _ "\<lambda>_. 0" "(1, 1)"] by simp
  have gr: "gradx ?s 12 = 0" "grady ?s 12 = 0"
    using setupNavFn_eq [OF ready [OF g, of "\<lambda>_. 0" "(1, 1)"]]
    by (auto simp: setup_reset_def inb_def)
  have d: "gradCell_d ?s 12 = Some (0, 0)"
    by (simp add: gradCell_d_def pot_at_def inb_def f p POT_HIGH_def)
  have "gradCell ?s 12 = Some (0, ?s)"
    by (simp add: gradCell_def gradx_at_def grady_at_def inb_def f gr d hypot_def)
  with d show ?thesis by (simp add: f p POT_HIGH_def)
qed

lemma keeps_refl: "keeps s s"
  by (simp add: keeps_def)

lemma keeps_trans: "keeps s s1 \<Longrightarrow> keeps s1 s2 \<Longrightarrow> keeps s s2"
proof -
  assume a: "keeps s s1" and b: "keeps s1 s2"
  have c: "cost s1 = cost s" using a by (simp add: keeps_def cost_def fun_eq_iff)
  have "\<And>k. potarr s2 k \<noteq> potarr s k \<Longrightarrow> cost s k < COST_OBS"
  proof -
    fix k assume "potarr s2 k \<noteq> potarr s k"
    then have "potarr s2 k \<noteq> potarr s1 k \<or> potarr s1 k \<noteq> potarr s k" by auto
    then show "cost s k < COST_OBS" using a b c by (auto simp: keeps_def)
  qed
  then show ?thesis using a b by (simp add: keeps_def)
qed

lemma keeps_updateCell: "updateCell s n = Some s' \<Longrightarrow> keeps s s'"
  by (simp add: keeps_def updateCell_frame updateCell_potarr)

lemma keeps_updateCellAstar: "updateCellAstar s n = Some s' \<Longrightarrow> keeps s s'"
  by (simp add: keeps_def updateCellAstar_frame updateCellAstar_potarr)

lemma keeps_clear_pending: "clear_pending b i s = Some s' \<Longrightarrow> keeps s s'"
  by (auto simp: clear_pending_def keeps_def Let_def cost_def split: if_splits)

lemma keeps_next_level: "keeps s (next_level s)"
  by (simp add: next_level_def keeps_def Let_def cost_def)

lemma keeps_foldM:
  assumes "\<And>x t t'. f x t = Some t' \<Longrightarrow> keeps t t'"
  shows "foldM f xs s = Some s' \<Longrightarrow> keeps s s'"
proof (induction xs arbitrary: s)
  case Nil
  then show ?case by (simp add: keeps_refl)
next
  case (Cons x xs)
  from Cons.prems obtain s1 where 1: "f x s = Some s1" and 2: "foldM f xs s1 = Some s'"
    by (auto split: option.splits)
  from assms [OF 1] Cons.IH [OF 2] show ?case by (rule keeps_trans)
qed

lemma keeps_dijkstra_cycle:
  assumes "dijkstra_cycle s = Some s'"
  shows "keeps s s'"
proof -
  from assms obtain s1 s2 where
    1: "foldM (clear_pending (curP s)) [0 .. curPe s - 1] s = Some s1" and
    2: "foldM (\<lambda>i s'. updateCell s' (pb s' (curP s) i)) [0 .. curPe s - 1] s1 = Some s2" and
    3: "s' = next_level s2"
    by (auto simp: dijkstra_cycle_def bind_eq_Some_conv)
  have "keeps s s1" using 1 by (rule keeps_foldM [rotated]) (rule keeps_clear_pending)
  moreover have "keeps s1 s2" using 2 by (rule keeps_foldM [rotated]) (rule keeps_updateCell)
  ultimately show ?thesis unfolding 3 using keeps_next_level keeps_trans by blast
qed

lemma keeps_astar_cycle:
  assumes "astar_cycle s = Some s'"
  shows "keeps s s'"
proof -
  from assms obtain s1 s2 where
    1: "foldM (clear_pending (curP s)) [0 .. curPe s - 1] s = Some s1" and
    2: "foldM (\<lambda>i s'. updateCellAstar s' (pb s' (curP s) i)) [0 .. curPe s - 1] s1 = Some s2" and
    3: "s' = next_level s2"
    by (auto simp: astar_cycle_def bind_eq_Some_conv)
  have "keeps s s1" using 1 by (rule keeps_foldM [rotated]) (rule keeps_clear_pending)
  moreover have "keeps s1 s2"
    using 2 by (rule keeps_foldM [rotated]) (rule keeps_updateCellAstar)
  ultimately show ?thesis unfolding 3 using keeps_next_level keeps_trans by blast
qed

lemma keeps_dijkstra_loop:
  "propNavFnDijkstra_loop cycles atStart startCell s cycle = Some (c, s') \<Longrightarrow> keeps s s'"
proof (induction cycles atStart startCell s cycle rule: propNavFnDijkstra_loop.induct)
  case (1 cycles atStart startCell s cycle)
  show ?case
  proof (cases "cycle < cycles \<and> \<not> (curPe s = 0 \<and> nextPe s = 0)")
    case False
    then have "s' = s"
      using "1.prems" by (subst (asm) propNavFnDijkstra_loop.simps) (auto split: if_splits)
    then show ?thesis by (simp add: keeps_refl)
  next
    case True
    then obtain s1 where c: "dijkstra_cycle s = Some s1"
      using "1.prems" by (subst (asm) propNavFnDijkstra_loop.simps) (auto split: option.splits)
    have k1: "keeps s s1" by (rule keeps_dijkstra_cycle [OF c])
    from "1.prems" True c consider
        (stop) "s' = s1"
      | (go) "propNavFnDijkstra_loop cycles atStart startCell s1 (cycle + 1) = Some (c, s')"
          "\<not> atStart \<or> (\<exists>p. pot_at s1 startCell = Some p \<and> \<not> p < POT_HIGH)"
      by (subst (asm) propNavFnDijkstra_loop.simps) (auto split: option.splits if_splits)
    then show ?thesis
    proof cases
      case stop
      then show ?thesis using k1 by simp
    next
      case go
      have "keeps s1 s'"
      proof (cases atStart)
        case True
        with go(2) obtain p where p: "pot_at s1 startCell = Some p" "\<not> p < POT_HIGH" by blast
        from "1.IH"(1) [of s1 p] True \<open>cycle < cycles \<and> \<not> (curPe s = 0 \<and> nextPe s = 0)\<close> c p go(1)
        show ?thesis by simp
      next
        case False
        from "1.IH"(2) [of s1] False \<open>cycle < cycles \<and> \<not> (curPe s = 0 \<and> nextPe s = 0)\<close> c go(1)
        show ?thesis by simp
      qed
      with k1 show ?thesis by (rule keeps_trans)
    qed
  qed
qed

lemma keeps_astar_loop:
  "propNavFnAstar_loop cycles startCell s cycle = Some (c, s') \<Longrightarrow> keeps s s'"
proof (induction cycles startCell s cycle rule: propNavFnAstar_loop.induct)
  case (1 cycles startCell s cycle)
  show ?case
  proof (cases "cycle < cycles \<and> \<not> (curPe s = 0 \<and> nextPe s = 0)")
    case False
    then have "s' = s"
      using "1.prems" by (subst (asm) propNavFnAstar_loop.simps) (auto split: if_splits)
    then show ?thesis by (simp add: keeps_refl)
  next
    case True
    then obtain s1 where c: "astar_cycle s = Some s1"
      using "1.prems" by (subst (asm) propNavFnAstar_loop.simps) (auto split: option.splits)
    have k1: "keeps s s1" by (rule keeps_astar_cycle [OF c])
    from "1.prems" True c consider
        (stop) "s' = s1"
      | (go) p where "propNavFnAstar_loop cycles startCell s1 (cycle + 1) = Some (c, s')"
          "pot_at s1 startCell = Some p" "\<not> p < POT_HIGH"
      by (subst (asm) propNavFnAstar_loop.simps) (auto split: option.splits if_splits)
    then show ?thesis
    proof cases
      case stop
      then show ?thesis using k1 by simp
    next
      case go
      from "1.IH" [of s1 p] True c go have "keeps s1 s'" by simp
      with k1 show ?thesis by (rule keeps_trans)
    qed
  qed
qed

lemma keeps_propNavFnDijkstra:
  "propNavFnDijkstra s cycles atStart = Some (b, s') \<Longrightarrow> keeps s s'"
  by (auto simp: propNavFnDijkstra_def Let_def split: option.splits dest: keeps_dijkstra_loop)

lemma keeps_propNavFnAstar:
  assumes "propNavFnAstar s cycles = Some (b, s')"
  shows "keeps s s'"
proof -
  let ?s0 = "s\<lparr>curT := hypot (real_of_int (fst (goal s) - fst (start s)))
                          (real_of_int (snd (goal s) - snd (start s)))
                        * real_of_int COST_NEUTRAL + curT s\<rparr>"
  from assms obtain c s1 p where
    l: "propNavFnAstar_loop cycles (snd (start s) * nx s + fst (start s)) ?s0 0 = Some (c, s1)"
    and s': "s' = s1\<lparr>last_path_cost := p\<rparr>"
    by (auto simp: propNavFnAstar_def Let_def split: option.splits)
  have "keeps s ?s0" by (simp add: keeps_def cost_def)
  moreover have "keeps ?s0 s1" by (rule keeps_astar_loop [OF l])
  moreover have "keeps s1 s'" by (simp add: s' keeps_def cost_def)
  ultimately show ?thesis using keeps_trans by blast
qed

lemma obstacles_high_keeps:
  assumes "keeps s s'" "obstacles_high s"
  shows "obstacles_high s'"
proof -
  have c: "cost s' = cost s" "inb s' = inb s" "goal_cell s' = goal_cell s"
    using assms(1) by (simp_all add: keeps_def cost_def inb_def goal_cell_def fun_eq_iff)
  have "\<And>k. cost s k \<ge> COST_OBS \<Longrightarrow> potarr s' k = potarr s k"
    using assms(1) unfolding keeps_def by force
  then show ?thesis
    using assms(2) unfolding obstacles_high_def c by simp
qed

lemma obstacles_high_setup:
  assumes "setupNavFn s0 keepit = Some s"
  shows "obstacles_high s"
  unfolding obstacles_high_def goal_cell_def
  by (simp add: setupNavFn_Some [OF assms] inb_def)

lemma reachable_obstacles_high: "reachable s0 s \<Longrightarrow> obstacles_high s"
proof (induction rule: reachable.induct)
  case (init keepit s)
  then show ?case by (rule obstacles_high_setup)
next
  case (cell s n s')
  then show ?case using keeps_updateCell obstacles_high_keeps by blast
next
  case (cellA s n s')
  then show ?case using keeps_updateCellAstar obstacles_high_keeps by blast
next
  case (pass s s')
  then show ?case using keeps_dijkstra_cycle obstacles_high_keeps by blast
next
  case (passA s s')
  then show ?case using keeps_astar_cycle obstacles_high_keeps by blast
next
  case (run s cycles atStart b s')
  then show ?case using keeps_propNavFnDijkstra obstacles_high_keeps by blast
next
  case (runA s cycles b s')
  then show ?case using keeps_propNavFnAstar obstacles_high_keeps by blast
qed

lemma reachable_goal_cell: "reachable s0 s \<Longrightarrow> goal_cell s = goal_cell s0 \<and> ns s = ns s0"
proof (induction rule: reachable.induct)
  case (init keepit s)
  then show ?case by (simp add: goal_cell_def setupNavFn_Some)
next
  case (cell s n s')
  then show ?case using keeps_updateCell [of s n s'] by (simp add: keeps_def goal_cell_def)
next
  case (cellA s n s')
  then show ?case using keeps_updateCellAstar [of s n s'] by (simp add: keeps_def goal_cell_def)
next
  case (pass s s')
  then show ?case using keeps_dijkstra_cycle [of s s'] by (simp add: keeps_def goal_cell_def)
next
  case (passA s s')
  then show ?case using keeps_astar_cycle [of s s'] by (simp add: keeps_def goal_cell_def)
next
  case (run s cycles atStart b s')
  then show ?case
    using keeps_propNavFnDijkstra [of s cycles atStart b s'] by (simp add: keeps_def goal_cell_def)
next
  case (runA s cycles b s')
  then show ?case
    using keeps_propNavFnAstar [of s cycles b s'] by (simp add: keeps_def goal_cell_def)
qed

subsection \<open>Obstacle cells and the potential\<close>

text \<open>
  Claim C3 says that every cell whose cost is \<^verbatim>\<open>COST_OBS\<close> or more is at \<^verbatim>\<open>POT_HIGH\<close> after
  \<^verbatim>\<open>setupNavFn\<close> and after every step of a propagation, also when the goal is such a
  cell. \<^verbatim>\<open>initCost\<close> tests neither its cell nor the cost of it: on a map whose cell
  (2, 2) is a lethal obstacle (254) and is the goal, the set-up leaves that cell with
  the cost \<^verbatim>\<open>COST_OBS\<close> and the potential 0.
\<close>

theorem obstacle_goal_counterexample:
  "setupNavFn (planner (\<lambda>k. if k = 12 then 254 else 0) (2, 2) (1, 1)) True
     = Some (ready (\<lambda>k. if k = 12 then 254 else 0) (2, 2) (1, 1)) \<and>
   reachable (planner (\<lambda>k. if k = 12 then 254 else 0) (2, 2) (1, 1))
     (ready (\<lambda>k. if k = 12 then 254 else 0) (2, 2) (1, 1)) \<and>
   inb (ready (\<lambda>k. if k = 12 then 254 else 0) (2, 2) (1, 1)) 12 \<and>
   cost (ready (\<lambda>k. if k = 12 then 254 else 0) (2, 2) (1, 1)) 12 \<ge> COST_OBS \<and>
   potarr (ready (\<lambda>k. if k = 12 then 254 else 0) (2, 2) (1, 1)) 12 = 0 \<and>
   potarr (ready (\<lambda>k. if k = 12 then 254 else 0) (2, 2) (1, 1)) 12 \<noteq> POT_HIGH"
proof -
  let ?c = "\<lambda>k::int. if k = 12 then 254 else 0 :: costtype"
  have g: "(0::int) \<le> fst (2, 2) + snd (2, 2) * 5" "fst (2::int, 2::int) + snd (2::int, 2::int) * 5 < 25"
    by simp_all
  note r = ready [OF g, of ?c "(1, 1)"]
  have "reachable (planner ?c (2, 2) (1, 1)) (ready ?c (2, 2) (1, 1))"
    using r by (rule reachable.init)
  moreover have "cost (ready ?c (2, 2) (1, 1)) 12 = 254"
    using ready_cost [OF g, of 12 ?c "(1, 1)"] by (simp add: ros_cell_lethal)
  moreover have "potarr (ready ?c (2, 2) (1, 1)) 12 = 0"
    using ready_potarr [OF g, of 12 ?c "(1, 1)"] by simp
  ultimately show ?thesis
    using r by (simp add: inb_def ready_fields [OF g] COST_OBS_def POT_HIGH_def)
qed

text \<open>
  Claim C3 as amended. Every cell other than the goal cell whose cost is \<^verbatim>\<open>COST_OBS\<close> or
  more is at \<^verbatim>\<open>POT_HIGH\<close> after \<^verbatim>\<open>setupNavFn\<close>, and every step of a propagation (a call
  of \<^verbatim>\<open>updateCell\<close> or \<^verbatim>\<open>updateCellAstar\<close>, a pass of a main loop, a whole propagation)
  keeps it so: in every state reachable from the set-up, a cell other than the goal
  with a potential below \<^verbatim>\<open>POT_HIGH\<close> has a cost below \<^verbatim>\<open>COST_OBS\<close>. The goal cell is
  seeded with the potential 0 whatever its cost.
\<close>

theorem obstacles_stay_high:
  assumes "reachable s0 s" "inb s k" "k \<noteq> goal_cell s0"
  shows "(cost s k \<ge> COST_OBS \<longrightarrow> potarr s k = POT_HIGH) \<and>
         (potarr s k < POT_HIGH \<longrightarrow> cost s k < COST_OBS)"
proof -
  have "obstacles_high s" by (rule reachable_obstacles_high [OF assms(1)])
  moreover have "k \<noteq> goal_cell s" using reachable_goal_cell [OF assms(1)] assms(3) by simp
  ultimately have "cost s k \<ge> COST_OBS \<longrightarrow> potarr s k = POT_HIGH"
    using assms(2) unfolding obstacles_high_def by blast
  then show ?thesis by auto
qed

theorem obstacles_stay_high_witness:
  "\<exists>s1. updateCell st5 13 = Some s1 \<and> reachable plan5 s1 \<and> inb s1 14 \<and> 14 \<noteq> goal_cell plan5 \<and>
     cost s1 14 \<ge> COST_OBS \<and> potarr s1 14 = POT_HIGH \<and> potarr s1 13 < POT_HIGH \<and>
     cost s1 13 < COST_OBS"
proof -
  obtain s1 where s1: "updateCell st5 13 = Some s1" and p: "potarr s1 13 = 50"
    using st5_update13 by blast
  have r: "reachable plan5 s1"
    using reachable.init [OF st5] s1 by (rule reachable.cell)
  have f: "ns s1 = 25" "costarr s1 = costarr st5"
    using updateCell_frame [OF s1] by simp_all
  have g: "(0::int) \<le> fst (2, 2) + snd (2, 2) * 5" "fst (2::int, 2::int) + snd (2::int, 2::int) * 5 < 25"
    by simp_all
  have c: "cost s1 14 = 254"
    using ready_cost [OF g, of 14 "\<lambda>_. 0" "(1, 1)"] by (simp add: cost_def f st5_def)
  have i: "inb s1 14" "inb s1 13" by (simp_all add: inb_def f)
  have n: "14 \<noteq> goal_cell plan5" "13 \<noteq> goal_cell plan5" by (simp_all add: goal_cell_def)
  from obstacles_stay_high [OF r i(1) n(1)] obstacles_stay_high [OF r i(2) n(2)] s1 r i n c p
  show ?thesis by (simp add: COST_OBS_def POT_HIGH_def)
qed

subsection \<open>The update rule in three phases\<close>

lemma cost_potarr_update: "cost (s\<lparr>potarr := p\<rparr>) = cost s"
  by (simp add: cost_def fun_eq_iff)

lemma push_cur_obstacle: "cost s n \<ge> COST_OBS \<Longrightarrow> push_cur s n = s"
  by (simp add: push_cur_def)

lemma c_div_mod_nonneg:
  "0 \<le> n \<Longrightarrow> 0 < m \<Longrightarrow> c_div n m = n div m \<and> c_mod n m = n mod m"
proof -
  assume a: "0 \<le> n" "0 < m"
  then have d: "c_div n m = n div m"
    by (cases "n = 0") (simp_all add: c_div_def)
  show ?thesis by (simp add: d c_mod_def minus_div_mult_eq_mod)
qed

lemma dispatch_next:
  "t < curT s \<Longrightarrow> dispatch s n l r u d q t =
     (let s1 = (if l > q + INVSQRT2 * real_of_int (cost s (n - 1)) then push_next s (n - 1) else s);
          s2 = (if r > q + INVSQRT2 * real_of_int (cost s (n + 1)) then push_next s1 (n + 1) else s1);
          s3 = (if u > q + INVSQRT2 * real_of_int (cost s (n - nx s)) then push_next s2 (n - nx s)
                else s2)
      in if d > q + INVSQRT2 * real_of_int (cost s (n + nx s)) then push_next s3 (n + nx s) else s3)"
  by (simp only: dispatch_def if_True Let_def)

lemma dispatch_over:
  "\<not> t < curT s \<Longrightarrow> dispatch s n l r u d q t =
     (let s1 = (if l > q + INVSQRT2 * real_of_int (cost s (n - 1)) then push_over s (n - 1) else s);
          s2 = (if r > q + INVSQRT2 * real_of_int (cost s (n + 1)) then push_over s1 (n + 1) else s1);
          s3 = (if u > q + INVSQRT2 * real_of_int (cost s (n - nx s)) then push_over s2 (n - nx s)
                else s2)
      in if d > q + INVSQRT2 * real_of_int (cost s (n + nx s)) then push_over s3 (n + nx s) else s3)"
  by (simp only: dispatch_def if_False Let_def)

lemma updateCell_spec:
  assumes "inb s (n - 1)" "inb s (n + 1)" "inb s (n - nx s)" "inb s (n + nx s)"
  shows "updateCell s n = Some (spec_update s n 0 0)"
proof -
  have n: "inb s n" using assms by (auto simp: inb_def)
  let ?pot = "updateCell_pot (potarr s (n - 1)) (potarr s (n + 1)) (potarr s (n - nx s))
                (potarr s (n + nx s)) (real_of_int (cost s n))"
  let ?s0 = "s\<lparr>potarr := (potarr s)(n := ?pot)\<rparr>"
  have f: "cost ?s0 = cost s" "nx ?s0 = nx s" "curT ?s0 = curT s"
    by (simp_all add: cost_potarr_update)
  note rd = pot_at_def cost_at_def assms n if_True bind.bind_lunit
  show ?thesis
  proof (cases "cost s n < COST_OBS \<and> ?pot < potarr s n")
    case False
    then show ?thesis
      unfolding updateCell_def spec_update_def updateCell_pot_spec [symmetric]
      by (simp only: rd Let_def) (auto simp: Let_def)
  next
    case True
    show ?thesis
    proof (cases "?pot < curT s")
      case lt: True
      show ?thesis
        unfolding updateCell_def spec_update_def updateCell_pot_spec [symmetric]
        using True lt
        by (simp only: rd Let_def dispatch_next f add_0_right simp_thms cong: if_cong)
    next
      case ge: False
      show ?thesis
        unfolding updateCell_def spec_update_def updateCell_pot_spec [symmetric]
        using True ge
        by (simp only: rd Let_def dispatch_over f add_0_right if_False simp_thms cong: if_cong)
    qed
  qed
qed

lemma updateCellAstar_spec:
  assumes "inb s (n - 1)" "inb s (n + 1)" "inb s (n - nx s)" "inb s (n + nx s)" "0 < nx s"
  shows "updateCellAstar s n = Some (spec_update s n (heuristic s n) (heuristic s n))"
proof -
  have n: "inb s n" "0 \<le> n" using assms by (auto simp: inb_def)
  have nz: "(nx s = 0) = False" using assms(5) by simp
  have h: "hypot (real_of_int (c_mod n (nx s) - fst (start s)))
                 (real_of_int (c_div n (nx s) - snd (start s))) * real_of_int COST_NEUTRAL
           = heuristic s n"
    using c_div_mod_nonneg [OF n(2) assms(5)] by (simp add: hypot_def heuristic_def)
  let ?pot = "updateCell_pot (potarr s (n - 1)) (potarr s (n + 1)) (potarr s (n - nx s))
                (potarr s (n + nx s)) (real_of_int (cost s n))"
  let ?s0 = "s\<lparr>potarr := (potarr s)(n := ?pot)\<rparr>"
  have f: "cost ?s0 = cost s" "nx ?s0 = nx s" "curT ?s0 = curT s"
    by (simp_all add: cost_potarr_update)
  note rd = pot_at_def cost_at_def assms(1-4) n(1) if_True if_False bind.bind_lunit nz h
    updateCellAstar_pot_eq
  show ?thesis
  proof (cases "cost s n < COST_OBS \<and> ?pot < potarr s n")
    case False
    then show ?thesis
      unfolding updateCellAstar_def spec_update_def updateCell_pot_spec [symmetric]
      by (simp only: rd Let_def) (auto simp: Let_def)
  next
    case True
    show ?thesis
    proof (cases "?pot + heuristic s n < curT s")
      case lt: True
      show ?thesis
        unfolding updateCellAstar_def spec_update_def updateCell_pot_spec [symmetric]
        using True lt
        by (simp only: rd Let_def dispatch_next f simp_thms cong: if_cong)
    next
      case ge: False
      show ?thesis
        unfolding updateCellAstar_def spec_update_def updateCell_pot_spec [symmetric]
        using True ge
        by (simp only: rd Let_def dispatch_over f simp_thms cong: if_cong)
    qed
  qed
qed

lemma dispatch_potarr [simp]: "potarr (dispatch s n l r u d q t) = potarr s"
  by (cases "t < curT s")
     (simp_all add: dispatch_next dispatch_over Let_def if_distrib [of potarr] cong: if_cong)

lemma spec_update_potarr: "potarr (spec_update s n a t) = potarr (spec_update s n 0 0)"
  by (simp add: spec_update_def Let_def)

lemma mid5_fields [simp]:
  "nx mid5 = 5" "ns mid5 = 25" "start mid5 = (2, 1)" "curT mid5 = 254"
  "nextPe mid5 = 0" "overPe mid5 = 0" "pending mid5 = (\<lambda>_. False)" "nextP mid5 = PB2"
  by (simp_all add: mid5_def)

lemma mid5_cost: "cost mid5 k = (if k \<in> {6, 7, 8, 11, 12, 13, 16, 17, 18} then 50 else 254)"
  by (simp add: cost_def mid5_def)

lemma mid5_potarr:
  "potarr mid5 k = (if k = 11 then 0 else if k = 6 then 50 else if k = 7 then 100 else POT_HIGH)"
  by (simp add: mid5_def)

lemma mid5_heuristic: "heuristic mid5 12 = 50"
  by (simp add: heuristic_def COST_NEUTRAL_def)

lemma mid5_candidate:
  "spec_candidate (potarr mid5 (12 - 1)) (potarr mid5 (12 + 1)) (potarr mid5 (12 - nx mid5))
     (potarr mid5 (12 + nx mid5)) (real_of_int (cost mid5 12)) = 50"
  by (simp add: spec_candidate_def mid5_potarr mid5_cost POT_HIGH_def)

text \<open>
  On \<open>mid5\<close> the new potential of cell 12 is 50 and the heuristic is 50. The upper
  neighbour 7 has the potential 100 and the edge weight 35.36: \<^verbatim>\<open>updateCell\<close> pushes
  it (100 > 50 + 35.36), and so would an update that uses the heuristic in the
  comparison with the threshold only; \<^verbatim>\<open>updateCellAstar\<close> does not
  (100 > 50 + 50 + 35.36 fails), onto either buffer.
\<close>

lemma cost_updates:
  "cost (s\<lparr>pending := p\<rparr>) = cost s" "cost (s\<lparr>pb := b\<rparr>) = cost s"
  "cost (s\<lparr>nextPe := e\<rparr>) = cost s" "cost (s\<lparr>overPe := e\<rparr>) = cost s"
  "cost (s\<lparr>curPe := e\<rparr>) = cost s"
  by (simp_all add: cost_def fun_eq_iff)

lemma mid5_updates:
  "pending (spec_update mid5 12 0 0) 7" "nextPe (spec_update mid5 12 0 0) = 3"
  "pending (spec_update mid5 12 0 50) 7" "nextPe (spec_update mid5 12 0 50) = 3"
  "\<not> pending (spec_update mid5 12 50 50) 7" "nextPe (spec_update mid5 12 50 50) = 2"
  "overPe (spec_update mid5 12 50 50) = 0" "potarr (spec_update mid5 12 50 50) 12 = 50"
  unfolding spec_update_def Let_def mid5_candidate
  by (simp_all add: mid5_cost mid5_potarr dispatch_next Let_def push_next_def cost_potarr_update
      cost_updates INVSQRT2_def POT_HIGH_def COST_OBS_def PRIORITYBUFSIZE_def)

subsection \<open>The A* variant of the update rule\<close>

text \<open>
  Claim C7 says that \<^verbatim>\<open>updateCellAstar\<close> writes the potential that \<^verbatim>\<open>updateCell\<close> writes
  and differs from it only in the choice between \<^verbatim>\<open>nextP\<close> and \<^verbatim>\<open>overP\<close>, where the
  comparison with \<^verbatim>\<open>curT\<close> uses \<open>pot + h n\<close>. The first part holds. The second does not:
  \<^verbatim>\<open>pot += dist\<close> stands before the whole dispatch, so the test of each neighbour uses
  \<open>pot + h n\<close> as well. On \<open>mid5\<close> at cell 12 both functions write 50; \<^verbatim>\<open>updateCell\<close>
  pushes the neighbours 13, 7 and 17 onto \<^verbatim>\<open>nextP\<close>, and so does the update that uses
  the heuristic against the threshold only; \<^verbatim>\<open>updateCellAstar\<close> pushes 13 and 17 and
  leaves cell 7 out of both buffers.
\<close>

theorem updateCellAstar_dispatch_counterexample:
  "updateCell mid5 12 = Some (spec_update mid5 12 0 0) \<and>
   updateCellAstar mid5 12 = Some (spec_update mid5 12 (heuristic mid5 12) (heuristic mid5 12)) \<and>
   potarr (spec_update mid5 12 (heuristic mid5 12) (heuristic mid5 12)) 12 = 50 \<and>
   pending (spec_update mid5 12 0 0) 7 \<and> nextPe (spec_update mid5 12 0 0) = 3 \<and>
   pending (spec_update mid5 12 0 (heuristic mid5 12)) 7 \<and>
   nextPe (spec_update mid5 12 0 (heuristic mid5 12)) = 3 \<and>
   \<not> pending (spec_update mid5 12 (heuristic mid5 12) (heuristic mid5 12)) 7 \<and>
   nextPe (spec_update mid5 12 (heuristic mid5 12) (heuristic mid5 12)) = 2 \<and>
   overPe (spec_update mid5 12 (heuristic mid5 12) (heuristic mid5 12)) = 0 \<and>
   updateCellAstar mid5 12 \<noteq> Some (spec_update mid5 12 0 (heuristic mid5 12))"
proof -
  have i: "inb mid5 (12 - 1)" "inb mid5 (12 + 1)" "inb mid5 (12 - nx mid5)"
    "inb mid5 (12 + nx mid5)" "0 < nx mid5"
    by (simp_all add: inb_def)
  note d = updateCell_spec [OF i(1-4)]
  note a = updateCellAstar_spec [OF i]
  have "nextPe (spec_update mid5 12 (heuristic mid5 12) (heuristic mid5 12))
          \<noteq> nextPe (spec_update mid5 12 0 (heuristic mid5 12))"
    by (simp add: mid5_heuristic mid5_updates)
  then have "spec_update mid5 12 (heuristic mid5 12) (heuristic mid5 12)
               \<noteq> spec_update mid5 12 0 (heuristic mid5 12)"
    by auto
  then show ?thesis
    using d a by (simp add: mid5_heuristic mid5_updates)
qed

text \<open>
  Claim C7 as amended. For a cell \<open>n\<close> whose four neighbours are cells of the grid,
  \<^verbatim>\<open>updateCellAstar\<close> writes to the potential of \<open>n\<close> the value that \<^verbatim>\<open>updateCell\<close> writes
  (the cost from the goal, without the heuristic), and differs from \<^verbatim>\<open>updateCell\<close> in
  the dispatch of the neighbours only, where \<open>pot + h n\<close> stands for \<open>pot\<close> both in the
  comparison with \<^verbatim>\<open>curT\<close> and in the test \<open>pot m > pot + h n + e m\<close> that admits a
  neighbour \<open>m\<close>; \<open>h n\<close> is the Euclidean distance from \<open>n\<close> to the start, scaled by
  \<^verbatim>\<open>COST_NEUTRAL\<close>.
\<close>

theorem updateCellAstar_refines:
  assumes "inb s (n - 1)" "inb s (n + 1)" "inb s (n - nx s)" "inb s (n + nx s)" "0 < nx s"
  shows "updateCell s n = Some (spec_update s n 0 0) \<and>
         updateCellAstar s n = Some (spec_update s n (heuristic s n) (heuristic s n)) \<and>
         potarr (spec_update s n (heuristic s n) (heuristic s n)) = potarr (spec_update s n 0 0) \<and>
         updateCellAstar_pot l r u d hf = updateCell_pot l r u d hf"
  using updateCell_spec [OF assms(1-4)] updateCellAstar_spec [OF assms]
    spec_update_potarr [of s n "heuristic s n" "heuristic s n"] updateCellAstar_pot_eq [of l r u d hf]
  by simp

theorem updateCellAstar_refines_witness:
  "inb st5 (13 - 1) \<and> inb st5 (13 + 1) \<and> inb st5 (13 - nx st5) \<and> inb st5 (13 + nx st5) \<and>
   0 < nx st5 \<and>
   updateCell st5 13 = Some (spec_update st5 13 0 0) \<and>
   updateCellAstar st5 13 = Some (spec_update st5 13 (heuristic st5 13) (heuristic st5 13)) \<and>
   potarr (spec_update st5 13 (heuristic st5 13) (heuristic st5 13)) 13 = 50 \<and>
   potarr (spec_update st5 13 0 0) 13 = 50"
proof -
  have i: "inb st5 (13 - 1)" "inb st5 (13 + 1)" "inb st5 (13 - nx st5)" "inb st5 (13 + nx st5)"
    "0 < nx st5"
    by (simp_all add: inb_def)
  note t = updateCellAstar_refines [OF i]
  obtain s' where s': "updateCell st5 13 = Some s'" "potarr s' 13 = 50"
    using st5_update13 by blast
  with t have "potarr (spec_update st5 13 0 0) 13 = 50" by simp
  with t i show ?thesis by simp
qed

subsection \<open>The result of the Dijkstra propagation\<close>

text \<open>
  What an exit of the loop at the counter \<open>c\<close> with the state \<open>s'\<close> says of the passes
  run since the loop was at the counter \<open>cycle\<close> with the state \<open>s\<close>.
\<close>

lemma dijkstra_loop_passes:
  "propNavFnDijkstra_loop cycles atStart sc s cycle = Some (c, s') \<Longrightarrow>
   \<exists>k. passes k s = Some s' \<and>
       (\<forall>j<k. \<exists>u. passes j s = Some u \<and> \<not> drained u) \<and>
       (atStart \<longrightarrow> (\<forall>j u. 0 < j \<and> j < k \<and> passes j s = Some u \<longrightarrow> POT_HIGH \<le> potarr u sc)) \<and>
       (if c < cycles
        then (c = cycle + int k \<and> drained s' \<and> (atStart \<and> 0 < k \<longrightarrow> POT_HIGH \<le> potarr s' sc)) \<or>
             (c + 1 = cycle + int k \<and> atStart \<and> potarr s' sc < POT_HIGH)
        else c = cycle + int k \<and> c = max cycle cycles \<and>
             (atStart \<and> 0 < k \<longrightarrow> POT_HIGH \<le> potarr s' sc))"
proof (induction cycles atStart sc s cycle rule: propNavFnDijkstra_loop.induct)
  case (1 cycles atStart sc s cycle)
  note prem = "1.prems"
  let ?Q = "\<lambda>s cycle k. passes k s = Some s' \<and>
       (\<forall>j<k. \<exists>u. passes j s = Some u \<and> \<not> drained u) \<and>
       (atStart \<longrightarrow> (\<forall>j u. 0 < j \<and> j < k \<and> passes j s = Some u \<longrightarrow> POT_HIGH \<le> potarr u sc)) \<and>
       (if c < cycles
        then (c = cycle + int k \<and> drained s' \<and> (atStart \<and> 0 < k \<longrightarrow> POT_HIGH \<le> potarr s' sc)) \<or>
             (c + 1 = cycle + int k \<and> atStart \<and> potarr s' sc < POT_HIGH)
        else c = cycle + int k \<and> c = max cycle cycles \<and>
             (atStart \<and> 0 < k \<longrightarrow> POT_HIGH \<le> potarr s' sc))"
  show ?case
  proof (cases "cycle < cycles")
    case False
    then have "propNavFnDijkstra_loop cycles atStart sc s cycle = Some (cycle, s)"
      by (subst propNavFnDijkstra_loop.simps) simp
    with prem have "s' = s" "c = cycle" by simp_all
    with False have "?Q s cycle 0" by simp
    then show ?thesis ..
  next
    case lt: True
    show ?thesis
    proof (cases "curPe s = 0 \<and> nextPe s = 0")
      case True
      then have "propNavFnDijkstra_loop cycles atStart sc s cycle = Some (cycle, s)"
        using lt by (subst propNavFnDijkstra_loop.simps) simp
      with prem have "s' = s" "c = cycle" by simp_all
      with True lt have "?Q s cycle 0" by (simp add: drained_def)
      then show ?thesis ..
    next
      case busy: False
      then have nd: "\<not> drained s" by (simp add: drained_def)
      show ?thesis
      proof (cases "dijkstra_cycle s")
        case None
        then have "propNavFnDijkstra_loop cycles atStart sc s cycle = None"
          using lt busy by (subst propNavFnDijkstra_loop.simps) auto
        with prem show ?thesis by simp
      next
        case (Some s1)
        note cy = this
        have step: "?Q s cycle (Suc k)"
          if q: "?Q s1 (cycle + 1) k" and hi: "atStart \<longrightarrow> POT_HIGH \<le> potarr s1 sc" for k
        proof -
          have p: "passes (Suc j) s = passes j s1" for j by (simp add: cy)
          have a: "\<forall>j<Suc k. \<exists>u. passes j s = Some u \<and> \<not> drained u"
          proof (intro allI impI)
            fix j assume "j < Suc k"
            then show "\<exists>u. passes j s = Some u \<and> \<not> drained u"
              using q nd by (cases j) (simp_all add: cy)
          qed
          have b: "atStart \<longrightarrow>
            (\<forall>j u. 0 < j \<and> j < Suc k \<and> passes j s = Some u \<longrightarrow> POT_HIGH \<le> potarr u sc)"
          proof (intro allI impI)
            fix j u assume at: atStart and j: "0 < j \<and> j < Suc k \<and> passes j s = Some u"
            then obtain i where i: "j = Suc i" by (cases j) auto
            show "POT_HIGH \<le> potarr u sc"
            proof (cases i)
              case 0
              with i j cy have "u = s1" by simp
              with hi at show ?thesis by simp
            next
              case (Suc i')
              with i j have "0 < i \<and> i < k \<and> passes i s1 = Some u" by (simp add: cy)
              with q at show ?thesis by blast
            qed
          qed
          have c: "atStart \<and> 0 < Suc k \<longrightarrow> (k = 0 \<longrightarrow> s' = s1)"
            using q by auto
          from q have ps: "passes (Suc k) s = Some s'" by (simp add: cy)
          have hi': "atStart \<and> k = 0 \<and> \<not> potarr s' sc < POT_HIGH \<longrightarrow> POT_HIGH \<le> potarr s' sc"
            by simp
          have d: "(if c < cycles
                then (c = cycle + int (Suc k) \<and> drained s' \<and>
                      (atStart \<and> 0 < Suc k \<longrightarrow> POT_HIGH \<le> potarr s' sc)) \<or>
                     (c + 1 = cycle + int (Suc k) \<and> atStart \<and> potarr s' sc < POT_HIGH)
                else c = cycle + int (Suc k) \<and> c = max cycle cycles \<and>
                     (atStart \<and> 0 < Suc k \<longrightarrow> POT_HIGH \<le> potarr s' sc))"
          proof (cases "k = 0")
            case True
            with q have "s' = s1" by simp
            with q hi lt True show ?thesis by (auto split: if_splits)
          next
            case False
            with q lt show ?thesis by (auto split: if_splits)
          qed
          from ps a b d show ?thesis by blast
        qed
        show ?thesis
        proof (cases atStart)
          case False
          have "propNavFnDijkstra_loop cycles atStart sc s cycle
                  = propNavFnDijkstra_loop cycles atStart sc s1 (cycle + 1)"
            using lt busy cy False by (subst propNavFnDijkstra_loop.simps) auto
          with prem have go: "propNavFnDijkstra_loop cycles atStart sc s1 (cycle + 1)
                                = Some (c, s')" by simp
          from "1.IH"(2) [OF lt busy cy False go] obtain k where q: "?Q s1 (cycle + 1) k" ..
          have hi: "atStart \<longrightarrow> POT_HIGH \<le> potarr s1 sc" using False by simp
          have "?Q s cycle (Suc k)" by (rule step [OF q hi])
          then show ?thesis ..
        next
          case at: True
          show ?thesis
          proof (cases "pot_at s1 sc")
            case None
            then have "propNavFnDijkstra_loop cycles atStart sc s cycle = None"
              using lt busy cy at by (subst propNavFnDijkstra_loop.simps) auto
            with prem show ?thesis by simp
          next
            case (Some p)
            note p = this
            have pe: "potarr s1 sc = p"
              using p by (simp add: pot_at_def split: if_splits)
            show ?thesis
            proof (cases "p < POT_HIGH")
              case True
              have "propNavFnDijkstra_loop cycles atStart sc s cycle = Some (cycle, s1)"
                using lt busy cy at p True by (subst propNavFnDijkstra_loop.simps) auto
              with prem have e: "s' = s1" "c = cycle" by simp_all
              have "?Q s cycle (Suc 0)"
                using e at True lt pe nd by (simp add: cy)
              then show ?thesis ..
            next
              case False
              have "propNavFnDijkstra_loop cycles atStart sc s cycle
                      = propNavFnDijkstra_loop cycles atStart sc s1 (cycle + 1)"
                using lt busy cy at p False by (subst propNavFnDijkstra_loop.simps) auto
              with prem have go: "propNavFnDijkstra_loop cycles atStart sc s1 (cycle + 1)
                                    = Some (c, s')" by simp
              from "1.IH"(1) [OF lt busy cy at p False go] obtain k where q: "?Q s1 (cycle + 1) k" ..
              have hi: "atStart \<longrightarrow> POT_HIGH \<le> potarr s1 sc" using False pe by simp
              have "?Q s cycle (Suc k)" by (rule step [OF q hi])
              then show ?thesis ..
            qed
          qed
        qed
      qed
    qed
  qed
qed

text \<open>
  Conversely, the loop entered at the counter \<open>cycle\<close> leaves by its first \<^verbatim>\<open>break\<close> after
  \<open>k\<close> passes when the budget allows them, the buffers are drained after them and not
  before, and neither a pass stops (with \<open>atStart\<close>) at a start cell below \<^verbatim>\<open>POT_HIGH\<close>.
\<close>

lemma dijkstra_loop_drain:
  "passes k s = Some t \<Longrightarrow> cycle + int k < cycles \<Longrightarrow> drained t \<Longrightarrow>
   \<forall>j<k. \<exists>u. passes j s = Some u \<and> \<not> drained u \<Longrightarrow>
   atStart \<longrightarrow> (\<forall>j u. 0 < j \<and> j \<le> k \<and> passes j s = Some u
                   \<longrightarrow> inb u sc \<and> POT_HIGH \<le> potarr u sc) \<Longrightarrow>
   propNavFnDijkstra_loop cycles atStart sc s cycle = Some (cycle + int k, t)"
proof (induction k arbitrary: s cycle)
  case 0
  then show ?case
    by (subst propNavFnDijkstra_loop.simps) (simp add: drained_def)
next
  case (Suc k)
  from Suc.prems(1) obtain s1 where cy: "dijkstra_cycle s = Some s1"
    and ps: "passes k s1 = Some t"
    by (auto split: option.splits)
  from Suc.prems(4) have nd: "\<not> drained s" by auto
  have lt: "cycle < cycles" "(cycle + 1) + int k < cycles" using Suc.prems(2) by simp_all
  have a: "\<forall>j<k. \<exists>u. passes j s1 = Some u \<and> \<not> drained u"
  proof (intro allI impI)
    fix j assume "j < k"
    then have "Suc j < Suc k" by simp
    with Suc.prems(4) have "\<exists>u. passes (Suc j) s = Some u \<and> \<not> drained u" by blast
    then show "\<exists>u. passes j s1 = Some u \<and> \<not> drained u" by (simp add: cy)
  qed
  have b: "atStart \<longrightarrow> (\<forall>j u. 0 < j \<and> j \<le> k \<and> passes j s1 = Some u
                   \<longrightarrow> inb u sc \<and> POT_HIGH \<le> potarr u sc)"
  proof (intro allI impI)
    fix j u assume at: atStart and j: "0 < j \<and> j \<le> k \<and> passes j s1 = Some u"
    then have "0 < Suc j \<and> Suc j \<le> Suc k \<and> passes (Suc j) s = Some u" by (simp add: cy)
    with Suc.prems(5) at show "inb u sc \<and> POT_HIGH \<le> potarr u sc" by blast
  qed
  have go: "propNavFnDijkstra_loop cycles atStart sc s1 (cycle + 1) = Some (cycle + 1 + int k, t)"
    by (rule Suc.IH [OF ps lt(2) Suc.prems(3) a b])
  have hi: "atStart \<longrightarrow> inb s1 sc \<and> POT_HIGH \<le> potarr s1 sc"
  proof
    assume at: atStart
    have "0 < Suc 0 \<and> Suc 0 \<le> Suc k \<and> passes (Suc 0) s = Some s1" by (simp add: cy)
    with Suc.prems(5) at show "inb s1 sc \<and> POT_HIGH \<le> potarr s1 sc" by blast
  qed
  have "propNavFnDijkstra_loop cycles atStart sc s cycle
          = propNavFnDijkstra_loop cycles atStart sc s1 (cycle + 1)"
    using lt(1) nd cy hi
    by (subst propNavFnDijkstra_loop.simps) (auto simp: drained_def pot_at_def)
  with go show ?case by simp
qed

lemma planner_priInc: "priInc (planner cmap g st) = 100" "curPe (planner cmap g st) = 0"
  by (simp_all add: planner_def setStart_def setGoal_def setCostmap_def NavFn_def
      setNavArr_def mem0_def COST_NEUTRAL_def)

lemma cost_fields:
  "cost (s\<lparr>nobs := m\<rparr>) = cost s" "cost (s\<lparr>curP := h\<rparr>) = cost s"
  "cost (s\<lparr>nextP := h\<rparr>) = cost s" "cost (s\<lparr>overP := h\<rparr>) = cost s"
  "cost (s\<lparr>curT := x\<rparr>) = cost s"
  by (simp_all add: cost_def fun_eq_iff)

text \<open>The two passes of the propagation on \<open>walled5\<close>.\<close>

lemma walled5_passes:
  "\<exists>t1 t2. dijkstra_cycle walled5 = Some t1 \<and> dijkstra_cycle t1 = Some t2 \<and>
     \<not> drained walled5 \<and> \<not> drained t1 \<and> drained t2 \<and>
     inb t1 6 \<and> potarr t1 6 = POT_HIGH \<and> inb t2 6 \<and> potarr t2 6 = POT_HIGH \<and>
     map (potarr t2) [8, 13, 16, 17, 18] = [100, 50, 100, 50, 426 / 5]"
proof -
  let ?c = "\<lambda>k::int. if k = 7 \<or> k = 11 then 254 else 0 :: costtype"
  let ?P = "planner ?c (2, 2) (1, 1)"
  have g: "(0::int) \<le> fst (2, 2) + snd (2, 2) * 5" "fst (2::int, 2::int) + snd (2::int, 2::int) * 5 < 25"
    by simp_all
  define X where "X = (setup_reset ?P True)\<lparr>potarr := (potarr (setup_reset ?P True))(12 := 0)\<rparr>"
  have cX: "cost X k = (if k \<in> {6, 8, 12, 13, 16, 17, 18} then 50 else 254)"
    if "0 \<le> k" "k < 25" for k
    using that
    by (simp add: X_def cost_potarr_update setup_reset_cost planner_cost planner_sealed
        ros_cell_lethal ros_cell_free COST_OBS_def; presburger)
  have pX: "potarr X k = (if k = 12 then 0 else POT_HIGH)" if "0 \<le> k" "k < 25" for k
    using that by (simp add: X_def setup_reset_def inb_def)
  have fX: "nx X = 5" "ns X = 25" "start X = (1, 1)" "curT X = 254" "priInc X = 100"
    "curP X = PB1" "nextP X = PB2" "overP X = PB3" "curPe X = 0" "nextPe X = 0" "overPe X = 0"
    "pb X = (\<lambda>_ _. 0)"
    by (simp_all add: X_def setup_reset_def planner_priInc COST_OBS_def)
  have qX: "pending X k = False" if "0 \<le> k" "k < 25" for k
    using that by (simp add: X_def setup_reset_def inb_def)
  have "\<exists>m. walled5 = (push_cur (push_cur (push_cur (push_cur X 13) 11) 7) 17)\<lparr>nobs := m\<rparr>"
    using setupNavFn_eq [OF ready [OF g, of ?c "(1, 1)"]] by (simp add: X_def walled5_def)
  moreover have "push_cur (push_cur (push_cur X 13) 11) 7 = push_cur X 13"
    by (simp add: push_cur_obstacle cX COST_OBS_def)
  ultimately obtain m where W: "walled5 = (push_cur (push_cur X 13) 17)\<lparr>nobs := m\<rparr>" by auto
  show ?thesis
    unfolding W
    by (simp add: dijkstra_cycle_def clear_pending_def updateCell_spec spec_update_def
        spec_candidate_def dispatch_next push_next_def push_cur_def next_level_def Let_def
        cost_updates cost_potarr_update cost_fields cX pX fX qX inb_def drained_def upto_rec1
        COST_OBS_def POT_HIGH_def INVSQRT2_def PRIORITYBUFSIZE_def)
qed

text \<open>
  Claim C10. \<^verbatim>\<open>propNavFnDijkstra\<close> returns true if and only if its loop is left with the
  counter \<open>c\<close> below \<open>cycles\<close>, and the state it returns is the state after the passes the
  loop has run, \<open>k\<close> of them, none begun with the buffers drained. It returns true in
  two cases: after \<open>k = c\<close> passes the buffers are drained (and then, with \<open>atStart\<close> and
  \<open>k > 0\<close>, the start cell is still at \<^verbatim>\<open>POT_HIGH\<close> or above), or \<open>atStart\<close> holds and
  pass \<open>k = c + 1\<close> has brought the start cell below \<^verbatim>\<open>POT_HIGH\<close>. It returns false after
  all the \<open>cycles\<close> passes of the budget. In particular (second part) the function does
  return true, with the state after \<open>k\<close> passes, whenever \<open>k < cycles\<close> passes drain the
  buffers and no earlier state is drained, while with \<open>atStart\<close> the start cell, a cell
  of the grid, is at \<^verbatim>\<open>POT_HIGH\<close> or above after each of them: the result does not say
  that the start was reached.
\<close>

theorem propNavFnDijkstra_result:
  "(propNavFnDijkstra s cycles atStart = Some (b, s') \<longrightarrow>
      (\<exists>c k. propNavFnDijkstra_loop cycles atStart (start_cell s) s 0 = Some (c, s') \<and>
             (b \<longleftrightarrow> c < cycles) \<and>
             passes k s = Some s' \<and>
             (\<forall>j<k. \<exists>u. passes j s = Some u \<and> \<not> drained u) \<and>
             (atStart \<longrightarrow> (\<forall>j u. 0 < j \<and> j < k \<and> passes j s = Some u
                              \<longrightarrow> POT_HIGH \<le> potarr u (start_cell s))) \<and>
             (if b
              then (c = int k \<and> drained s' \<and>
                    (atStart \<and> 0 < k \<longrightarrow> POT_HIGH \<le> potarr s' (start_cell s))) \<or>
                   (c + 1 = int k \<and> atStart \<and> potarr s' (start_cell s) < POT_HIGH)
              else c = int k \<and> c = max 0 cycles \<and>
                   (atStart \<and> 0 < k \<longrightarrow> POT_HIGH \<le> potarr s' (start_cell s))))) \<and>
   (int k < cycles \<and> passes k s = Some t \<and> drained t \<and>
    (\<forall>j<k. \<exists>u. passes j s = Some u \<and> \<not> drained u) \<and>
    (atStart \<longrightarrow> (\<forall>j u. 0 < j \<and> j \<le> k \<and> passes j s = Some u
                     \<longrightarrow> inb u (start_cell s) \<and> POT_HIGH \<le> potarr u (start_cell s)))
    \<longrightarrow> propNavFnDijkstra_loop cycles atStart (start_cell s) s 0 = Some (int k, t) \<and>
        propNavFnDijkstra s cycles atStart = Some (True, t))"
proof (intro conjI impI)
  assume a: "propNavFnDijkstra s cycles atStart = Some (b, s')"
  obtain c where l: "propNavFnDijkstra_loop cycles atStart (start_cell s) s 0 = Some (c, s')"
    and b: "b \<longleftrightarrow> c < cycles"
  proof (cases "propNavFnDijkstra_loop cycles atStart (start_cell s) s 0")
    case None
    with a show ?thesis by (simp add: propNavFnDijkstra_def start_cell_def Let_def)
  next
    case (Some r)
    obtain c t where r: "r = (c, t)" by (cases r)
    from a Some r have "t = s'" "b \<longleftrightarrow> c < cycles"
      by (auto simp: propNavFnDijkstra_def start_cell_def Let_def split: if_splits)
    with Some r that show ?thesis by simp
  qed
  from dijkstra_loop_passes [OF l] obtain k where
    k: "passes k s = Some s'"
       "\<forall>j<k. \<exists>u. passes j s = Some u \<and> \<not> drained u"
       "atStart \<longrightarrow> (\<forall>j u. 0 < j \<and> j < k \<and> passes j s = Some u
                        \<longrightarrow> POT_HIGH \<le> potarr u (start_cell s))"
       "if c < cycles
        then (c = 0 + int k \<and> drained s' \<and>
              (atStart \<and> 0 < k \<longrightarrow> POT_HIGH \<le> potarr s' (start_cell s))) \<or>
             (c + 1 = 0 + int k \<and> atStart \<and> potarr s' (start_cell s) < POT_HIGH)
        else c = 0 + int k \<and> c = max 0 cycles \<and>
             (atStart \<and> 0 < k \<longrightarrow> POT_HIGH \<le> potarr s' (start_cell s))"
    by blast
  from k(4) b have
    "if b
     then (c = int k \<and> drained s' \<and>
           (atStart \<and> 0 < k \<longrightarrow> POT_HIGH \<le> potarr s' (start_cell s))) \<or>
          (c + 1 = int k \<and> atStart \<and> potarr s' (start_cell s) < POT_HIGH)
     else c = int k \<and> c = max 0 cycles \<and>
          (atStart \<and> 0 < k \<longrightarrow> POT_HIGH \<le> potarr s' (start_cell s))"
    by (simp split: if_splits)
  with l b k(1-3)
  show "\<exists>c k. propNavFnDijkstra_loop cycles atStart (start_cell s) s 0 = Some (c, s') \<and>
             (b \<longleftrightarrow> c < cycles) \<and>
             passes k s = Some s' \<and>
             (\<forall>j<k. \<exists>u. passes j s = Some u \<and> \<not> drained u) \<and>
             (atStart \<longrightarrow> (\<forall>j u. 0 < j \<and> j < k \<and> passes j s = Some u
                              \<longrightarrow> POT_HIGH \<le> potarr u (start_cell s))) \<and>
             (if b
              then (c = int k \<and> drained s' \<and>
                    (atStart \<and> 0 < k \<longrightarrow> POT_HIGH \<le> potarr s' (start_cell s))) \<or>
                   (c + 1 = int k \<and> atStart \<and> potarr s' (start_cell s) < POT_HIGH)
              else c = int k \<and> c = max 0 cycles \<and>
                   (atStart \<and> 0 < k \<longrightarrow> POT_HIGH \<le> potarr s' (start_cell s)))"
    by blast
next
  assume h: "int k < cycles \<and> passes k s = Some t \<and> drained t \<and>
    (\<forall>j<k. \<exists>u. passes j s = Some u \<and> \<not> drained u) \<and>
    (atStart \<longrightarrow> (\<forall>j u. 0 < j \<and> j \<le> k \<and> passes j s = Some u
                     \<longrightarrow> inb u (start_cell s) \<and> POT_HIGH \<le> potarr u (start_cell s)))"
  then have lt: "0 + int k < cycles" by simp
  have "propNavFnDijkstra_loop cycles atStart (start_cell s) s 0 = Some (0 + int k, t)"
    using h by (intro dijkstra_loop_drain [OF _ lt]) blast+
  then show l: "propNavFnDijkstra_loop cycles atStart (start_cell s) s 0 = Some (int k, t)"
    by simp
  with h show "propNavFnDijkstra s cycles atStart = Some (True, t)"
    by (simp add: propNavFnDijkstra_def start_cell_def Let_def)
qed

text \<open>
  On \<open>walled5\<close> the set-up puts the cells 13 and 17 into the current buffer. The first
  pass gives them the potential 50 and pushes the cells 8, 18 and 16; the second pass
  gives these the potentials 100, 85.2 and 100 and pushes nothing, the cells 7 and 11
  being obstacles. The loop leaves at the counter 2 of the budget 5 by its first
  \<^verbatim>\<open>break\<close>, and the function returns true with the start cell 6 at \<^verbatim>\<open>POT_HIGH\<close>.
\<close>

theorem propNavFnDijkstra_result_witness:
  "\<exists>t. passes 2 walled5 = Some t \<and> drained t \<and>
       start_cell walled5 = 6 \<and> potarr t 6 = POT_HIGH \<and>
       map (potarr t) [8, 13, 16, 17, 18] = [100, 50, 100, 50, 426 / 5] \<and>
       propNavFnDijkstra_loop 5 True 6 walled5 0 = Some (2, t) \<and>
       propNavFnDijkstra walled5 5 True = Some (True, t)"
proof -
  from walled5_passes obtain t1 where "\<exists>t2. dijkstra_cycle walled5 = Some t1 \<and>
     dijkstra_cycle t1 = Some t2 \<and> \<not> drained walled5 \<and> \<not> drained t1 \<and> drained t2 \<and>
     inb t1 6 \<and> potarr t1 6 = POT_HIGH \<and> inb t2 6 \<and> potarr t2 6 = POT_HIGH \<and>
     map (potarr t2) [8, 13, 16, 17, 18] = [100, 50, 100, 50, 426 / 5]" ..
  then obtain t2 where c: "dijkstra_cycle walled5 = Some t1 \<and>
     dijkstra_cycle t1 = Some t2 \<and> \<not> drained walled5 \<and> \<not> drained t1 \<and> drained t2 \<and>
     inb t1 6 \<and> potarr t1 6 = POT_HIGH \<and> inb t2 6 \<and> potarr t2 6 = POT_HIGH \<and>
     map (potarr t2) [8, 13, 16, 17, 18] = [100, 50, 100, 50, 426 / 5]" ..
  from c have p: "dijkstra_cycle walled5 = Some t1" "dijkstra_cycle t1 = Some t2"
    and d: "\<not> drained walled5" "\<not> drained t1" "drained t2"
    and h: "inb t1 6" "potarr t1 6 = POT_HIGH" "inb t2 6" "potarr t2 6 = POT_HIGH"
    and v: "map (potarr t2) [8, 13, 16, 17, 18] = [100, 50, 100, 50, 426 / 5]"
    by simp_all
  have sc: "start_cell walled5 = 6"
    by (simp add: start_cell_def walled5_def)
  have p1: "passes 1 walled5 = Some t1" and p2: "passes 2 walled5 = Some t2"
    using p by (simp_all add: numeral_2_eq_2)
  have a: "\<forall>j<2. \<exists>u. passes j walled5 = Some u \<and> \<not> drained u"
  proof (intro allI impI)
    fix j :: nat assume "j < 2"
    then have "j = 0 \<or> j = 1" by auto
    then show "\<exists>u. passes j walled5 = Some u \<and> \<not> drained u"
      using d p1 by auto
  qed
  have b: "\<forall>j u. 0 < j \<and> j \<le> 2 \<and> passes j walled5 = Some u
             \<longrightarrow> inb u (start_cell walled5) \<and> POT_HIGH \<le> potarr u (start_cell walled5)"
  proof (intro allI impI)
    fix j :: nat and u assume j: "0 < j \<and> j \<le> 2 \<and> passes j walled5 = Some u"
    then have "j = 1 \<or> j = 2" by auto
    with j p1 p2 have "u = t1 \<or> u = t2" by auto
    with h sc show "inb u (start_cell walled5) \<and> POT_HIGH \<le> potarr u (start_cell walled5)"
      by auto
  qed
  from propNavFnDijkstra_result [of walled5 5 True True t2 2 t2] p2 d(3) a b
  have "propNavFnDijkstra_loop 5 True (start_cell walled5) walled5 0 = Some (int 2, t2) \<and>
        propNavFnDijkstra walled5 5 True = Some (True, t2)"
    by simp
  with p2 d(3) sc h(4) v show ?thesis by simp
qed

subsection \<open>The sub-cell offset of the path tracer\<close>











lemma planner_npathbuf: "npathbuf (planner cmap g st) = 0"
  by (simp add: planner_def setStart_def setGoal_def setCostmap_def NavFn_def
      setNavArr_def mem0_def)

text \<open>
  The three passes of the propagation on the free grid with the goal (1, 2), and the
  potentials they leave.
\<close>

lemma flow5_passes:
  "\<exists>t1 t2 t3. dijkstra_cycle (ready (\<lambda>_. 0) (1, 2) (2, 2)) = Some t1 \<and>
     dijkstra_cycle t1 = Some t2 \<and> dijkstra_cycle t2 = Some t3 \<and>
     \<not> drained (ready (\<lambda>_. 0) (1, 2) (2, 2)) \<and> \<not> drained t1 \<and> \<not> drained t2 \<and> drained t3 \<and>
     nx t3 = 5 \<and> ny t3 = 5 \<and> ns t3 = 25 \<and> goal t3 = (1, 2) \<and> start t3 = (2, 2) \<and>
     pathStep t3 = 1 / 2 \<and> npathbuf t3 = 0 \<and>
     (\<forall>k. 0 \<le> k \<and> k < 25 \<longrightarrow> gradx t3 k = 0 \<and> grady t3 k = 0) \<and>
     (\<forall>k. 0 \<le> k \<and> k < 25 \<longrightarrow> potarr t3 k =
        (if k = 11 then 0 else if k \<in> {6, 12, 16} then 50 else if k \<in> {7, 17} then 426 / 5
         else if k = 13 then 100 else if k \<in> {8, 18} then 198822403 / 1562500 else POT_HIGH))"
proof -
  let ?c = "\<lambda>k::int. 0 :: costtype"
  let ?P = "planner ?c (1, 2) (2, 2)"
  have g: "(0::int) \<le> fst (1, 2) + snd (1, 2) * 5" "fst (1::int, 2::int) + snd (1::int, 2::int) * 5 < 25"
    by simp_all
  define X where "X = (setup_reset ?P True)\<lparr>potarr := (potarr (setup_reset ?P True))(11 := 0)\<rparr>"
  have cX: "cost X k = (if k \<in> {6, 7, 8, 11, 12, 13, 16, 17, 18} then 50 else 254)"
    if "0 \<le> k" "k < 25" for k
    using that
    by (simp add: X_def cost_potarr_update setup_reset_cost planner_cost planner_sealed
        ros_cell_lethal ros_cell_free COST_OBS_def; presburger)
  have pX: "potarr X k = (if k = 11 then 0 else POT_HIGH)" if "0 \<le> k" "k < 25" for k
    using that by (simp add: X_def setup_reset_def inb_def)
  have fX: "nx X = 5" "ny X = 5" "ns X = 25" "start X = (2, 2)" "goal X = (1, 2)" "curT X = 254"
    "priInc X = 100" "pathStep X = 1 / 2"
    "curP X = PB1" "nextP X = PB2" "overP X = PB3" "curPe X = 0" "nextPe X = 0" "overPe X = 0"
    "pb X = (\<lambda>_ _. 0)" "npathbuf X = 0"
    by (simp_all add: X_def setup_reset_def planner_priInc planner_npathbuf COST_OBS_def)
  have qX: "pending X k = False" "gradx X k = 0" "grady X k = 0" if "0 \<le> k" "k < 25" for k
    using that by (simp_all add: X_def setup_reset_def inb_def)
  have "\<exists>m. ready ?c (1, 2) (2, 2)
          = (push_cur (push_cur (push_cur (push_cur X 12) 10) 6) 16)\<lparr>nobs := m\<rparr>"
    using setupNavFn_eq [OF ready [OF g, of ?c "(2, 2)"]] by (simp add: X_def)
  moreover have "push_cur (push_cur X 12) 10 = push_cur X 12"
    by (simp add: push_cur_obstacle cX COST_OBS_def)
  ultimately obtain m where
    W: "ready ?c (1, 2) (2, 2) = (push_cur (push_cur (push_cur X 12) 6) 16)\<lparr>nobs := m\<rparr>"
    by auto
  show ?thesis
    unfolding W
    by (simp add: dijkstra_cycle_def clear_pending_def updateCell_spec spec_update_def
        spec_candidate_def dispatch_next push_next_def push_cur_def next_level_def Let_def
        cost_updates cost_potarr_update cost_fields cX pX fX qX inb_def drained_def upto_rec1
        COST_OBS_def POT_HIGH_def INVSQRT2_def PRIORITYBUFSIZE_def power2_eq_square)
qed

lemma hypot_0 [simp]: "hypot x 0 = \<bar>x\<bar>"
  by (simp add: hypot_def)

text \<open>The propagation returns true after these passes, with the state \<open>flow5\<close>.\<close>

lemma flow5:
  "propNavFnDijkstra (ready (\<lambda>_. 0) (1, 2) (2, 2)) 10 False = Some (True, flow5) \<and>
   nx flow5 = 5 \<and> ny flow5 = 5 \<and> ns flow5 = 25 \<and> goal flow5 = (1, 2) \<and> start flow5 = (2, 2) \<and>
   pathStep flow5 = 1 / 2 \<and> npathbuf flow5 = 0 \<and>
   (\<forall>k. 0 \<le> k \<and> k < 25 \<longrightarrow> gradx flow5 k = 0 \<and> grady flow5 k = 0) \<and>
   (\<forall>k. 0 \<le> k \<and> k < 25 \<longrightarrow> potarr flow5 k =
      (if k = 11 then 0 else if k \<in> {6, 12, 16} then 50 else if k \<in> {7, 17} then 426 / 5
       else if k = 13 then 100 else if k \<in> {8, 18} then 198822403 / 1562500 else POT_HIGH))"
proof -
  let ?R = "ready (\<lambda>_. 0) (1, 2) (2, 2)"
  let ?F = "\<lambda>t3. nx t3 = 5 \<and> ny t3 = 5 \<and> ns t3 = 25 \<and> goal t3 = (1, 2) \<and> start t3 = (2, 2) \<and>
     pathStep t3 = 1 / 2 \<and> npathbuf t3 = 0 \<and>
     (\<forall>k. 0 \<le> k \<and> k < 25 \<longrightarrow> gradx t3 k = 0 \<and> grady t3 k = 0) \<and>
     (\<forall>k. 0 \<le> k \<and> k < 25 \<longrightarrow> potarr t3 k =
        (if k = 11 then 0 else if k \<in> {6, 12, 16} then 50 else if k \<in> {7, 17} then 426 / 5
         else if k = 13 then 100 else if k \<in> {8, 18} then 198822403 / 1562500 else POT_HIGH))"
  from flow5_passes obtain t1 t2 t3 where
    p: "dijkstra_cycle ?R = Some t1" "dijkstra_cycle t1 = Some t2" "dijkstra_cycle t2 = Some t3"
    and d: "\<not> drained ?R" "\<not> drained t1" "\<not> drained t2" "drained t3"
    and f: "?F t3"
    by (elim exE conjE) (intro that conjI; assumption)
  have p3: "passes 3 ?R = Some t3" "passes 2 ?R = Some t2" "passes 1 ?R = Some t1"
    using p by (simp_all add: numeral_3_eq_3 numeral_2_eq_2)
  have a: "\<forall>j<3. \<exists>u. passes j ?R = Some u \<and> \<not> drained u"
  proof (intro allI impI)
    fix j :: nat assume "j < 3"
    then have "j = 0 \<or> j = 1 \<or> j = 2" by auto
    then show "\<exists>u. passes j ?R = Some u \<and> \<not> drained u"
      using d p3 by auto
  qed
  have "propNavFnDijkstra_loop 10 False (snd (start ?R) * nx ?R + fst (start ?R)) ?R 0
          = Some (0 + int 3, t3)"
    using p3(1) _ d(4) a by (rule dijkstra_loop_drain) simp_all
  then have r: "propNavFnDijkstra ?R 10 False = Some (True, t3)"
    by (simp add: propNavFnDijkstra_def Let_def)
  then have "flow5 = t3" by (simp add: flow5_def)
  with r f show ?thesis by simp
qed

lemma flow5_fields [simp]:
  "nx flow5 = 5" "ny flow5 = 5" "ns flow5 = 25" "goal flow5 = (1, 2)" "start flow5 = (2, 2)"
  "pathStep flow5 = 1 / 2" "npathbuf flow5 = 0"
  using flow5 by simp_all










end
